theory Spec2Isabelle
  imports Main "HOL-Library.AList"
begin

section \<open>Strings\<close>

text \<open>
  JavaScript strings are modelled as \<^typ>\<open>string\<close>, one \<^typ>\<open>char\<close> per code unit
  (code units above 255 are neither digits nor \<open>+\<close>, so \<open>cleanNumber\<close> drops them
  like any other non-digit).
\<close>

definition isDigit :: "char \<Rightarrow> bool" where
  \<comment> \<open>the regular expression class \<open>\d\<close>\<close>
  "isDigit c = (c \<in> set ''0123456789'')"

definition isWhiteSpace :: "char \<Rightarrow> bool" where
  \<comment> \<open>what \<open>String.prototype.trim\<close> strips: TAB, LF, VT, FF, CR, space, NBSP\<close>
  "isWhiteSpace c = (c \<in> set [CHR 0x09, CHR 0x0A, CHR 0x0B, CHR 0x0C, CHR 0x0D, CHR 0x20, CHR 0xA0])"

definition trim :: "string \<Rightarrow> string" where
  "trim s = rev (dropWhile isWhiteSpace (rev (dropWhile isWhiteSpace s)))"

definition startsWith :: "string \<Rightarrow> string \<Rightarrow> bool" where
  "startsWith s p = (take (length p) s = p)"

definition digitChar :: "nat \<Rightarrow> char" where
  "digitChar d = ''0123456789'' ! d"

function showNat :: "nat \<Rightarrow> string" where
  \<comment> \<open>a number inside a template literal\<close>
  "showNat n = (if n < 10 then [digitChar n] else showNat (n div 10) @ [digitChar (n mod 10)])"
  by pat_completeness auto
termination
  by (relation "measure id") auto

fun join :: "string \<Rightarrow> string list \<Rightarrow> string" where
  "join sep [] = []"
| "join sep [x] = x"
| "join sep (x # y # ys) = x @ sep @ join sep (y # ys)"

section \<open>NumberValidator\<close>

record base =
  originalNumber :: string
  formattedNumber :: "string option"
  error :: "string option"
  network :: "string option"

record validation = base +
  isValid :: bool

text \<open>
  The table \<open>this.pakistaniNetworks\<close>. The keys are integer-like, so \<open>Object.keys\<close>
  lists them in ascending order, which is the order written here.
\<close>

definition pakistaniNetworks :: "(string \<times> string) list" where
  "pakistaniNetworks =
    [(''300'', ''Jazz''), (''301'', ''Jazz''), (''302'', ''Jazz''), (''303'', ''Jazz''),
     (''304'', ''Jazz''), (''305'', ''Jazz''), (''306'', ''Jazz''), (''307'', ''Jazz''),
     (''308'', ''Jazz''), (''309'', ''Jazz''),
     (''310'', ''Zong''), (''311'', ''Zong''), (''312'', ''Zong''), (''313'', ''Zong''),
     (''314'', ''Zong''), (''315'', ''Zong''), (''316'', ''Zong''), (''317'', ''Zong''),
     (''318'', ''Zong''), (''319'', ''Zong''),
     (''320'', ''Ufone''), (''321'', ''Ufone''), (''322'', ''Ufone''), (''323'', ''Ufone''),
     (''324'', ''Ufone''), (''325'', ''Ufone''), (''326'', ''Ufone''), (''327'', ''Ufone''),
     (''328'', ''Ufone''), (''329'', ''Ufone''),
     (''340'', ''Telenor''), (''341'', ''Telenor''), (''342'', ''Telenor''), (''343'', ''Telenor''),
     (''344'', ''Telenor''), (''345'', ''Telenor''), (''346'', ''Telenor''), (''347'', ''Telenor''),
     (''348'', ''Telenor''), (''349'', ''Telenor''),
     (''354'', ''NTC''), (''355'', ''SCOM'')]"

definition isValidNetworkCode :: "string \<Rightarrow> bool" where
  "isValidNetworkCode networkCode = (map_of pakistaniNetworks networkCode \<noteq> None)"

definition cleanNumber :: "string \<Rightarrow> string" where
  "cleanNumber number =
    (if number = [] then []
     else let cleaned = trim number;
              cleaned = (if startsWith cleaned ''+'' then drop 1 cleaned else cleaned)
          in filter isDigit cleaned)"

definition intlRegex :: "string \<Rightarrow> bool" where
  \<comment> \<open>\<open>/^\+\d{7,14}$/\<close>\<close>
  "intlRegex s =
    (case s of [] \<Rightarrow> False
     | c # ds \<Rightarrow> c = CHR ''+'' \<and> 7 \<le> length ds \<and> length ds \<le> 14 \<and> list_all isDigit ds)"

definition validateInternationalNumber :: "string \<Rightarrow> validation" where
  "validateInternationalNumber cleaned =
    (if length cleaned < 7 \<or> length cleaned > 15 then
       \<lparr>originalNumber = cleaned, formattedNumber = None,
        error = Some ''Invalid international number length'',
        network = Some ''International'', isValid = False\<rparr>
     else
       let formattedNumber =
         (if \<not> startsWith cleaned ''+'' then
            (if startsWith cleaned ''00'' then ''+'' @ drop 2 cleaned
             else if length cleaned \<ge> 10 \<and> \<not> startsWith cleaned ''0'' then ''+'' @ cleaned
             else if startsWith cleaned ''0'' \<and> length cleaned \<ge> 10 then
               (if length cleaned = 11 \<and> startsWith cleaned ''03''
                then ''+92'' @ drop 1 cleaned
                else ''+'' @ cleaned)
             else ''+'' @ cleaned)
          else cleaned)
       in if \<not> intlRegex formattedNumber then
            \<lparr>originalNumber = cleaned, formattedNumber = None,
             error = Some ''Invalid international number format'',
             network = Some ''International'', isValid = False\<rparr>
          else
            \<lparr>originalNumber = cleaned, formattedNumber = Some formattedNumber,
             error = None, network = Some ''International'', isValid = True\<rparr>)"

definition mobileAt :: "string \<Rightarrow> string option" where
  \<comment> \<open>\<open>3\d{8}\<close> anchored at the head of the string: the nine characters it captures\<close>
  "mobileAt s =
    (if 9 \<le> length s \<and> startsWith s ''3'' \<and> list_all isDigit (take 8 (drop 1 s))
     then Some (take 9 s) else None)"

definition matchAt :: "string \<Rightarrow> string option" where
  \<comment> \<open>\<open>92(3\d{8})|0?(3\d{8})\<close> anchored at the head: the first alternative first, and
      in the second the greedy \<open>0?\<close> before its empty match; the value is
      \<open>match[1] || match[2]\<close>\<close>
  "matchAt s =
    (if startsWith s ''92'' \<and> mobileAt (drop 2 s) \<noteq> None then mobileAt (drop 2 s)
     else if startsWith s ''0'' \<and> mobileAt (drop 1 s) \<noteq> None then mobileAt (drop 1 s)
     else mobileAt s)"

fun matchPakistani :: "string \<Rightarrow> string option" where
  \<comment> \<open>\<open>cleaned.match(/92(3\d{8})|0?(3\d{8})/)\<close>: the leftmost position that matches\<close>
  "matchPakistani [] = None"
| "matchPakistani (c # cs) =
    (case matchAt (c # cs) of Some m \<Rightarrow> Some m | None \<Rightarrow> matchPakistani cs)"

definition formatNumber :: "string \<Rightarrow> string option" where
  "formatNumber cleaned =
    (if cleaned = [] \<or> length cleaned < 7 then None
     else if startsWith cleaned ''+'' then Some cleaned
     else if startsWith cleaned ''92'' \<and> length cleaned = 12 then Some (''+'' @ cleaned)
     else if startsWith cleaned ''0'' \<and> length cleaned = 11 then Some (''+92'' @ drop 1 cleaned)
     else if startsWith cleaned ''3'' \<and> length cleaned = 10 then Some (''+92'' @ cleaned)
     else if length cleaned = 10 \<and> isValidNetworkCode (take 3 cleaned) then Some (''+92'' @ cleaned)
     else if length cleaned > 12 \<and> matchPakistani cleaned \<noteq> None then
       (case matchPakistani cleaned of Some mobileDigits \<Rightarrow> Some (''+92'' @ mobileDigits)
        | None \<Rightarrow> None)
     else if length cleaned \<ge> 7 \<and> length cleaned \<le> 15 then
       (if startsWith cleaned ''00'' then Some (''+'' @ drop 2 cleaned)
        else if length cleaned \<ge> 10 \<and> \<not> startsWith cleaned ''0'' then Some (''+'' @ cleaned)
        else Some (''+'' @ cleaned))
     else None)"

record pkValidation =
  pkValid :: bool
  pkError :: "string option"
  pkNetwork :: "string option"

definition validatePakistaniNumber :: "string \<Rightarrow> pkValidation" where
  "validatePakistaniNumber formatted =
    (if formatted = [] \<or> \<not> startsWith formatted ''+92'' then
       \<lparr>pkValid = False, pkError = Some ''Number must start with +92'', pkNetwork = None\<rparr>
     else
       let remainingDigits = drop 3 formatted in
       if length remainingDigits \<noteq> 10 then
         \<lparr>pkValid = False,
          pkError = Some (''Invalid length. Expected 10 digits after +92, got ''
                          @ showNat (length remainingDigits)),
          pkNetwork = None\<rparr>
       else if \<not> list_all isDigit remainingDigits then
         \<lparr>pkValid = False, pkError = Some ''Number must contain only digits after +92'',
          pkNetwork = None\<rparr>
       else if \<not> startsWith remainingDigits ''3'' then
         \<lparr>pkValid = False,
          pkError = Some ''Pakistani mobile numbers must start with 3 after country code'',
          pkNetwork = None\<rparr>
       else
         let networkCode = take 3 remainingDigits in
         if \<not> isValidNetworkCode networkCode then
           \<lparr>pkValid = False,
            pkError = Some (''Invalid network code: '' @ networkCode @ ''. Supported codes: ''
                            @ join '', '' (map fst pakistaniNetworks)),
            pkNetwork = None\<rparr>
         else
           \<lparr>pkValid = True, pkError = None, pkNetwork = map_of pakistaniNetworks networkCode\<rparr>)"

definition validateNumber :: "string \<Rightarrow> validation" where
  \<comment> \<open>nothing in the \<open>try\<close> block throws on a string, so the \<open>catch\<close> has no branch here\<close>
  "validateNumber number =
    (let cleaned = cleanNumber number in
     if cleaned = [] then
       \<lparr>originalNumber = number, formattedNumber = None,
        error = Some ''Empty or invalid number'', network = None, isValid = False\<rparr>
     else
       let internationalValidation = validateInternationalNumber cleaned in
       if isValid internationalValidation then internationalValidation
       else
         (case formatNumber cleaned of
            None \<Rightarrow>
              \<lparr>originalNumber = number, formattedNumber = None,
               error = Some ''Invalid number format'', network = None, isValid = False\<rparr>
          | Some formatted \<Rightarrow>
              if formatted = [] then
                \<lparr>originalNumber = number, formattedNumber = None,
                 error = Some ''Invalid number format'', network = None, isValid = False\<rparr>
              else
                let validation = validatePakistaniNumber formatted in
                \<lparr>originalNumber = number,
                 formattedNumber = (if pkValid validation then Some formatted else None),
                 error = pkError validation, network = pkNetwork validation,
                 isValid = pkValid validation\<rparr>))"

section \<open>WhatsAppService: state\<close>

datatype status = StatusValid | StatusInvalid | StatusError

datatype jsbool = JNull | JUndefined | JBool bool

record checkResult = base +
  status :: status
  hasWhatsApp :: jsbool
  fromCache :: "bool option"

record cacheEntry =
  result :: checkResult
  timestamp :: int

text \<open>
  A Baileys socket, as far as the service sees it: which socket it is, the directory its
  auth state was loaded from, and whether that directory held paired credentials.
\<close>

record socket =
  sockId :: nat
  authDir :: string
  hadCreds :: bool

record session =
  isReady :: bool
  isInitializing :: bool
  socketId :: string
  manuallyDisconnected :: bool
  initStartTime :: int

datatype emit = WhatsappStatus string string | WhatsappReady

text \<open>
  The fields of the service, followed by the world it acts on: the directories under
  \<open>baseSessionPath\<close> (\<open>True\<close> when the directory holds paired credentials), the number
  of sockets \<open>makeWASocket\<close> has built, the sockets whose \<open>end()\<close> was called, what
  was emitted to which socket.io room, the \<open>onWhatsApp\<close> queries sent (user, JID, time),
  the \<open>sleep\<close> calls and the progress callbacks. \<open>numberCache\<close> is a JavaScript
  \<open>Map\<close>; its keys are the \<open>formattedNumber\<close> of a validation (a string or null).
\<close>

record service =
  clients :: "string \<rightharpoonup> socket"
  userSessions :: "string \<rightharpoonup> session"
  numberCache :: "(string option \<times> cacheEntry) list"
  lastCheckTime :: int
  disk :: "string \<rightharpoonup> bool"
  made :: nat
  ended :: "socket list"
  emitted :: "(string \<times> emit) list"
  queried :: "(string \<times> string \<times> int) list"
  slept :: "int list"
  progressed :: "(nat \<times> nat \<times> string) list"

definition cacheExpiry :: int where
  "cacheExpiry = 60 * 60 * 1000"

definition checkInterval :: int where
  "checkInterval = 2000"

definition maxConcurrent :: nat where
  "maxConcurrent = 5"

definition constructor :: "(string \<rightharpoonup> bool) \<Rightarrow> service" where
  "constructor d =
    \<lparr>clients = Map.empty, userSessions = Map.empty, numberCache = [], lastCheckTime = 0,
     disk = d, made = 0, ended = [], emitted = [], queried = [], slept = [], progressed = []\<rparr>"

definition emitTo :: "string \<Rightarrow> emit \<Rightarrow> service \<Rightarrow> service" where
  \<comment> \<open>\<open>this.io.to(socketId).emit(...)\<close>\<close>
  "emitTo sid e st = st\<lparr>emitted := emitted st @ [(sid, e)]\<rparr>"

definition sleep :: "int \<Rightarrow> service \<Rightarrow> service" where
  "sleep ms st = st\<lparr>slept := slept st @ [ms]\<rparr>"

section \<open>WhatsAppService: the result cache\<close>

text \<open>
  Each function takes the value \<open>Date.now()\<close> has while it runs as \<open>now\<close>. The
  \<open>Map\<close> is the list of its entries in insertion order: \<open>map_of\<close> is \<open>get\<close>,
  \<open>AList.update\<close> is \<open>set\<close> (a new key goes last, a known key keeps its place),
  \<open>AList.delete\<close> is \<open>delete\<close>; the keys stay distinct, so \<open>length\<close> is \<open>size\<close>.
\<close>

definition getCachedResult :: "int \<Rightarrow> string option \<Rightarrow> service \<Rightarrow> checkResult option \<times> service" where
  "getCachedResult now cacheKey st =
    (case map_of (numberCache st) cacheKey of
       None \<Rightarrow> (None, st)
     | Some cached \<Rightarrow>
         if now - timestamp cached < cacheExpiry then (Some (result cached), st)
         else (None, st\<lparr>numberCache := AList.delete cacheKey (numberCache st)\<rparr>))"

definition cleanupCache :: "int \<Rightarrow> service \<Rightarrow> service" where
  "cleanupCache now st =
    st\<lparr>numberCache := filter (\<lambda>(key, v). \<not> (now - timestamp v \<ge> cacheExpiry)) (numberCache st)\<rparr>"

definition setCachedResult :: "int \<Rightarrow> string option \<Rightarrow> checkResult \<Rightarrow> service \<Rightarrow> service" where
  "setCachedResult now cacheKey r st =
    (if status r = StatusError then st
     else
       let st1 = st\<lparr>numberCache :=
                  AList.update cacheKey \<lparr>result = r, timestamp = now\<rparr> (numberCache st)\<rparr>
       in if length (numberCache st1) > 1000 then cleanupCache now st1 else st1)"

definition clearCache :: "service \<Rightarrow> service" where
  "clearCache st = st\<lparr>numberCache := []\<rparr>"

section \<open>WhatsAppService: the pacing gate\<close>

text \<open>
  \<open>waitForRateLimit\<close> runs up to its \<open>await this.sleep(waitTime)\<close>, or to its end when
  it does not wait (\<open>waitForRateLimit_enter\<close>: the wait, if any, and the state), and
  after the sleep it stamps \<open>lastCheckTime\<close> (\<open>waitForRateLimit_resume\<close>).
\<close>

definition waitForRateLimit_enter :: "int \<Rightarrow> service \<Rightarrow> int option \<times> service" where
  "waitForRateLimit_enter now st =
    (let timeSinceLastCheck = now - lastCheckTime st in
     if timeSinceLastCheck < checkInterval then
       (let waitTime = checkInterval - timeSinceLastCheck in (Some waitTime, sleep waitTime st))
     else (None, st\<lparr>lastCheckTime := now\<rparr>))"

definition waitForRateLimit_resume :: "int \<Rightarrow> service \<Rightarrow> service" where
  "waitForRateLimit_resume now st = st\<lparr>lastCheckTime := now\<rparr>"

section \<open>WhatsAppService: checkNumber\<close>

text \<open>
  \<open>checkNumber\<close> is an async function: it runs to its first \<open>await\<close> when called and
  then in one piece after each awaited promise settles. A \<open>task\<close> is where one call
  stands: not yet called, inside the sleep of \<open>waitForRateLimit\<close>, past
  \<open>waitForRateLimit\<close>, waiting for \<open>socket.onWhatsApp\<close>, or settled (its promise
  fulfilled with a result or rejected with a message).
\<close>

datatype task =
  Pending
| Sleeping validation
| Paced validation
| Querying validation
| Resolved checkResult
| Rejected string

text \<open>
  What \<open>const [result] = await socket.onWhatsApp(id)\<close> gives: a first entry with its
  \<open>exists\<close> field, no entry, or an exception.
\<close>

datatype reply = Entry jsbool | NoEntry | Throws string

definition formatForWhatsApp :: "string option \<Rightarrow> string option" where
  "formatForWhatsApp formatted =
    (case formatted of
       None \<Rightarrow> None
     | Some f \<Rightarrow> if f \<noteq> [] \<and> startsWith f ''+'' then Some (drop 1 f) else Some f)"

definition whatsappId :: "validation \<Rightarrow> string" where
  \<comment> \<open>\<open>whatsappNumber + '@s.whatsapp.net'\<close>; a null prints as \<open>null\<close>\<close>
  "whatsappId v =
    (case formatForWhatsApp (formattedNumber v) of None \<Rightarrow> ''null'' | Some w \<Rightarrow> w)
    @ ''@s.whatsapp.net''"

definition notReady :: string where
  "notReady = ''WhatsApp socket is not ready for this user''"

definition sessionReady :: "string \<Rightarrow> service \<Rightarrow> bool" where
  \<comment> \<open>the negation of \<open>!socket || !userSession || !userSession.isReady\<close>\<close>
  "sessionReady userId st =
    (case clients st userId of
       None \<Rightarrow> False
     | Some sock \<Rightarrow> (case userSessions st userId of None \<Rightarrow> False | Some us \<Rightarrow> isReady us))"

definition checkNumber_start :: "int \<Rightarrow> string \<Rightarrow> string \<Rightarrow> service \<Rightarrow> task \<times> service" where
  "checkNumber_start now number userId st =
    (if \<not> sessionReady userId st then (Rejected notReady, st)
     else
       let validation = validateNumber number in
       if \<not> isValid validation then
         (Resolved \<lparr>originalNumber = number, formattedNumber = None, error = error validation,
                    network = None, status = StatusInvalid, hasWhatsApp = JNull,
                    fromCache = None\<rparr>, st)
       else
         let cacheKey = formattedNumber validation in
         (case getCachedResult now cacheKey st of
            (Some cachedResult, st1) \<Rightarrow>
              (Resolved (cachedResult\<lparr>originalNumber := number, fromCache := Some True\<rparr>), st1)
          | (None, st1) \<Rightarrow>
              (case waitForRateLimit_enter now st1 of
                 (Some waitTime, st2) \<Rightarrow> (Sleeping validation, st2)
               | (None, st2) \<Rightarrow> (Paced validation, st2))))"

definition checkNumber_reply :: "reply \<Rightarrow> int \<Rightarrow> string \<Rightarrow> validation \<Rightarrow> service \<Rightarrow> task \<times> service" where
  "checkNumber_reply rep now number validation st =
    (case rep of
       Throws msg \<Rightarrow>
         (Resolved \<lparr>originalNumber = number, formattedNumber = formattedNumber validation,
                    error = Some (''Check failed: '' @ msg), network = network validation,
                    status = StatusError, hasWhatsApp = JNull, fromCache = Some False\<rparr>, st)
     | _ \<Rightarrow>
         let isRegistered = (case rep of Entry e \<Rightarrow> e | _ \<Rightarrow> JUndefined);
             checkResult = \<lparr>originalNumber = number, formattedNumber = formattedNumber validation,
                            error = None, network = network validation,
                            status = StatusValid, hasWhatsApp = isRegistered,
                            fromCache = Some False\<rparr>
         in (Resolved checkResult, setCachedResult now (formattedNumber validation) checkResult st))"

definition checkNumber_step :: "reply \<Rightarrow> int \<Rightarrow> string \<Rightarrow> string \<Rightarrow> task \<Rightarrow> service \<Rightarrow> task \<times> service" where
  "checkNumber_step rep now number userId t st =
    (case t of
       Pending \<Rightarrow> checkNumber_start now number userId st
     | Sleeping validation \<Rightarrow> (Paced validation, waitForRateLimit_resume now st)
     | Paced validation \<Rightarrow>
         (Querying validation, st\<lparr>queried := queried st @ [(userId, whatsappId validation, now)]\<rparr>)
     | Querying validation \<Rightarrow> checkNumber_reply rep now number validation st
     | Resolved r \<Rightarrow> (t, st)
     | Rejected msg \<Rightarrow> (t, st))"

text \<open>
  \<open>checkNumber\<close> when nothing else runs between its pieces: called at \<open>now\<close>, woken
  from the sleep of the gate at \<open>wake\<close> if it sleeps, answered by the network at
  \<open>answered\<close>. The query is sent in the microtask that follows the stamp of
  \<open>lastCheckTime\<close>, at the same reading of the clock.
\<close>

definition checkNumber ::
  "reply \<Rightarrow> int \<Rightarrow> int \<Rightarrow> int \<Rightarrow> string \<Rightarrow> string \<Rightarrow> service \<Rightarrow> task \<times> service" where
  "checkNumber rep now wake answered number userId st =
    (case checkNumber_step rep now number userId Pending st of
       (t1, st1) \<Rightarrow>
         (case (case t1 of Sleeping v \<Rightarrow> checkNumber_step rep wake number userId t1 st1
                | _ \<Rightarrow> (t1, st1)) of
            (t2, st2) \<Rightarrow>
              (case (case t2 of
                       Paced v \<Rightarrow>
                         checkNumber_step rep (case t1 of Sleeping v \<Rightarrow> wake | _ \<Rightarrow> now)
                           number userId t2 st2
                     | _ \<Rightarrow> (t2, st2)) of
                 (t3, st3) \<Rightarrow>
                   (case t3 of Querying v \<Rightarrow> checkNumber_step rep answered number userId t3 st3
                    | _ \<Rightarrow> (t3, st3)))))"

section \<open>WhatsAppService: checkNumbers\<close>

text \<open>
  The variables of one \<open>checkNumbers\<close> call (\<open>results\<close>, \<open>completed\<close>), the service,
  and the workers of the batch in flight: the callbacks \<open>batch.map\<close> started. A worker
  is \<open>Done\<close> once it has written its slot of \<open>results\<close>. \<open>results\<close> is
  \<open>new Array(numbers.length)\<close>, \<open>None\<close> being a slot not yet written. The progress
  callback is the caller's; its calls are recorded in \<open>progressed\<close>, and it is taken not
  to throw.
\<close>

datatype worker = Running task | Done

record run =
  svc :: service
  results :: "checkResult option list"
  completed :: nat
  workers :: "worker list"

definition finishWorker :: "string \<Rightarrow> nat \<Rightarrow> nat \<Rightarrow> nat \<Rightarrow> checkResult \<Rightarrow> run \<Rightarrow> run" where
  \<comment> \<open>\<open>results[actualIndex] = result; completed++; progressCallback(completed, total', number)\<close>\<close>
  "finishWorker number total' actualIndex index res r =
    r\<lparr>results := (results r)[actualIndex := Some res],
      completed := completed r + 1,
      svc := (svc r)\<lparr>progressed := progressed (svc r) @ [(completed r + 1, total', number)]\<rparr>,
      workers := (workers r)[index := Done]\<rparr>"

definition errorResult :: "string \<Rightarrow> string \<Rightarrow> checkResult" where
  \<comment> \<open>the result built in the \<open>catch\<close> of the \<open>batch.map\<close> callback\<close>
  "errorResult number msg =
    \<lparr>originalNumber = number, formattedNumber = None, error = Some msg, network = None,
     status = StatusError, hasWhatsApp = JNull, fromCache = Some False\<rparr>"

text \<open>
  One event of the event loop for the batch at \<open>startIndex\<close>: worker \<open>index\<close> runs its
  next piece at time \<open>now\<close>. \<open>net\<close> is what the network answers for each position of the
  input. \<open>actualIndex\<close> is below \<open>numbers.length\<close> for every worker of a batch, so the
  write to \<open>results\<close> never extends the array.
\<close>

definition workerStep ::
  "(nat \<Rightarrow> reply) \<Rightarrow> string \<Rightarrow> nat \<Rightarrow> string list \<Rightarrow> nat \<Rightarrow> nat \<times> int \<Rightarrow> run \<Rightarrow> run" where
  "workerStep net userId total' batch startIndex ev r =
    (let index = fst ev; now = snd ev in
     if index < length (workers r) \<and> index < length batch then
       let actualIndex = startIndex + index; number = batch ! index in
       (case workers r ! index of
          Done \<Rightarrow> r
        | Running (Resolved res) \<Rightarrow> finishWorker number total' actualIndex index res r
        | Running (Rejected msg) \<Rightarrow>
            finishWorker number total' actualIndex index (errorResult number msg) r
        | Running t \<Rightarrow>
            (case checkNumber_step (net actualIndex) now number userId t (svc r) of
               (t1, st1) \<Rightarrow> r\<lparr>svc := st1, workers := (workers r)[index := Running t1]\<rparr>))
     else r)"

definition settleWorker ::
  "(nat \<Rightarrow> reply) \<Rightarrow> string \<Rightarrow> nat \<Rightarrow> string list \<Rightarrow> nat \<Rightarrow> int \<Rightarrow> nat \<Rightarrow> run \<Rightarrow> run" where
  \<comment> \<open>a worker has at most five pieces left to run\<close>
  "settleWorker net userId total' batch startIndex now index r =
    (let step = workerStep net userId total' batch startIndex (index, now)
     in step (step (step (step (step r)))))"

text \<open>
  \<open>processBatch\<close> with \<open>Promise.all\<close>: the workers of the batch run in the order the
  schedule gives (a list of events and a closing time); whatever is still unsettled when
  the list ends runs to its end at the closing time, in index order, so that every
  awaited promise settles. The event loop starts the callbacks in index order before any
  of them resumes; a schedule is free to do otherwise, so the schedules cover every
  order in which the event loop can run the batch, and more.
\<close>

type_synonym schedule = "(nat \<times> int) list \<times> int"

definition processBatch ::
  "(nat \<Rightarrow> reply) \<Rightarrow> string \<Rightarrow> nat \<Rightarrow> string list \<Rightarrow> nat \<Rightarrow> schedule \<Rightarrow> run \<Rightarrow> run" where
  "processBatch net userId total' batch startIndex sched r =
    (let r1 = r\<lparr>workers := replicate (length batch) (Running Pending)\<rparr>;
         r2 = fold (workerStep net userId total' batch startIndex) (fst sched) r1
     in fold (settleWorker net userId total' batch startIndex (snd sched)) [0..<length batch] r2)"

function checkLoop ::
  "(nat \<Rightarrow> reply) \<Rightarrow> schedule list \<Rightarrow> string list \<Rightarrow> string \<Rightarrow> nat \<Rightarrow> run \<Rightarrow> run" where
  "checkLoop net scheds numbers userId i r =
    (if i < length numbers then
       let batch = take maxConcurrent (drop i numbers);
           r1 = processBatch net userId (length numbers) batch i
                  (case scheds of [] \<Rightarrow> ([], 0) | sched # rest \<Rightarrow> sched) r;
           r2 = (if i + maxConcurrent < length numbers then r1\<lparr>svc := sleep 1000 (svc r1)\<rparr> else r1)
       in checkLoop net (tl scheds) numbers userId (i + maxConcurrent) r2
     else r)"
  by pat_completeness auto
termination
  by (relation "measure (\<lambda>(net, scheds, numbers, userId, i, r). length numbers - i)")
     (auto simp: maxConcurrent_def)

definition checkNumbers ::
  "(nat \<Rightarrow> reply) \<Rightarrow> schedule list \<Rightarrow> string list \<Rightarrow> string \<Rightarrow> service
     \<Rightarrow> (string + checkResult option list) \<times> service" where
  "checkNumbers net scheds numbers userId st =
    (if \<not> sessionReady userId st then (Inl notReady, st)
     else if numbers = [] then (Inl ''Invalid numbers array'', st)
     else if length numbers > 5000 then (Inl ''Maximum 5000 numbers allowed at once'', st)
     else
       let r = checkLoop net scheds numbers userId 0
                 \<lparr>svc = st, results = replicate (length numbers) None, completed = 0,
                  workers = []\<rparr>
       in (Inr (results r), svc r))"

section \<open>WhatsAppService: sessions\<close>

text \<open>
  What the outside world can make fail during one call: \<open>end()\<close> of the existing
  socket, \<open>fs.remove\<close>, and one of the three awaited calls that build a socket
  (each with the message of the exception).
\<close>

datatype initFault = EnsureDirThrows string | AuthStateThrows string | MakeSocketThrows string

record faults =
  endFault :: "string option"
  removeFault :: "string option"
  initFault :: "initFault option"

definition endClient :: "string \<Rightarrow> service \<Rightarrow> service" where
  \<comment> \<open>\<open>socket.end(); this.clients.delete(userId)\<close> for the socket stored for \<open>userId\<close>\<close>
  "endClient userId st =
    (case clients st userId of
       None \<Rightarrow> st
     | Some existingClient \<Rightarrow>
         st\<lparr>ended := ended st @ [existingClient], clients := (clients st)(userId := None)\<rparr>)"

definition resetStuck :: "faults \<Rightarrow> int \<Rightarrow> string \<Rightarrow> string \<Rightarrow> service \<Rightarrow> service option" where
  \<comment> \<open>the first \<open>if\<close> of \<open>initializeUserSession\<close>; \<open>None\<close> is its \<open>return\<close>\<close>
  "resetStuck fl now userId sid st =
    (case userSessions st userId of
       None \<Rightarrow> Some st
     | Some userSession \<Rightarrow>
         if isInitializing userSession then
           let initStartTime' =
                 (if initStartTime userSession = 0 then now else initStartTime userSession);
               timeDiff = now - initStartTime'
           in if timeDiff > 60000 then
                let st1 = st\<lparr>userSessions :=
                            (userSessions st)(userId \<mapsto> userSession\<lparr>isInitializing := False\<rparr>)\<rparr>;
                    st2 = (case endFault fl of None \<Rightarrow> endClient userId st1 | Some msg \<Rightarrow> st1)
                in Some (emitTo sid
                     (WhatsappStatus ''timeout'' ''Initialization timeout, restarting...'') st2)
              else None
         else Some st)"

text \<open>
  \<open>initializeUserSession\<close> up to its first \<open>await\<close>: \<open>Inl\<close> when it has returned,
  \<open>Inr\<close> when it has registered the session and awaits \<open>fs.ensureDir\<close>.
\<close>

definition initializeUserSession_begin ::
  "faults \<Rightarrow> int \<Rightarrow> string \<Rightarrow> string \<Rightarrow> service \<Rightarrow> service + service" where
  "initializeUserSession_begin fl now userId sid st =
    (case resetStuck fl now userId sid st of
       None \<Rightarrow> Inl st
     | Some st1 \<Rightarrow>
         if (case userSessions st1 userId of None \<Rightarrow> False | Some us \<Rightarrow> isReady us) then
           Inl (emitTo sid (WhatsappStatus ''ready'' ''WhatsApp is ready!'')
                 (emitTo sid WhatsappReady st1))
         else
           Inr (emitTo sid
                 (WhatsappStatus ''initializing'' ''Starting your WhatsApp session with Baileys...'')
                 (st1\<lparr>userSessions := (userSessions st1)(userId \<mapsto>
                    \<lparr>isReady = False, isInitializing = True, socketId = sid,
                     manuallyDisconnected = False, initStartTime = now\<rparr>)\<rparr>)))"

definition initFailed :: "string \<Rightarrow> string \<Rightarrow> string \<Rightarrow> service \<Rightarrow> service" where
  \<comment> \<open>the \<open>catch\<close> of \<open>initializeUserSession\<close>\<close>
  "initFailed msg userId sid st =
    emitTo sid (WhatsappStatus ''error'' (''Failed to initialize: '' @ msg))
      (case userSessions st userId of
         None \<Rightarrow> st
       | Some userSession \<Rightarrow>
           st\<lparr>userSessions := (userSessions st)(userId \<mapsto> userSession\<lparr>isInitializing := False\<rparr>)\<rparr>)"

definition ensureDir :: "string \<Rightarrow> service \<Rightarrow> service" where
  "ensureDir p st = (case disk st p of None \<Rightarrow> st\<lparr>disk := (disk st)(p \<mapsto> False)\<rparr> | Some c \<Rightarrow> st)"

text \<open>
  The rest of \<open>initializeUserSession\<close>: the session directory \<open>user-<userId>\<close>, the auth
  state loaded from it, the socket built on that state and stored in \<open>clients\<close>.
\<close>

definition initializeUserSession_connect :: "faults \<Rightarrow> string \<Rightarrow> string \<Rightarrow> service \<Rightarrow> service" where
  "initializeUserSession_connect fl userId sid st =
    (let userSessionPath = ''user-'' @ userId in
     case initFault fl of
       Some (EnsureDirThrows msg) \<Rightarrow> initFailed msg userId sid st
     | Some (AuthStateThrows msg) \<Rightarrow> initFailed msg userId sid (ensureDir userSessionPath st)
     | Some (MakeSocketThrows msg) \<Rightarrow> initFailed msg userId sid (ensureDir userSessionPath st)
     | None \<Rightarrow>
         let st1 = ensureDir userSessionPath st;
             sock = \<lparr>sockId = made st1, authDir = userSessionPath,
                     hadCreds = (disk st1 userSessionPath = Some True)\<rparr>
         in st1\<lparr>made := made st1 + 1, clients := (clients st1)(userId \<mapsto> sock)\<rparr>)"

definition initializeUserSession :: "faults \<Rightarrow> int \<Rightarrow> string \<Rightarrow> string \<Rightarrow> service \<Rightarrow> service" where
  "initializeUserSession fl now userId sid st =
    (case initializeUserSession_begin fl now userId sid st of
       Inl st1 \<Rightarrow> st1
     | Inr st1 \<Rightarrow> initializeUserSession_connect fl userId sid st1)"

text \<open>
  \<open>restart\<close>; \<open>now\<close> is the time at which it calls \<open>initializeUserSession\<close>, after its
  \<open>sleep(2000)\<close>.
\<close>

definition restart :: "faults \<Rightarrow> int \<Rightarrow> string \<Rightarrow> string \<Rightarrow> service \<Rightarrow> service" where
  "restart fl now userId sid st =
    (if clients st userId \<noteq> None \<and> endFault fl \<noteq> None then
       emitTo sid (WhatsappStatus ''error''
         (''Restart failed: '' @ (case endFault fl of None \<Rightarrow> [] | Some msg \<Rightarrow> msg))) st
     else
       let st1 = endClient userId st;
           st2 = (case userSessions st1 userId of
                    None \<Rightarrow> st1
                  | Some userSession \<Rightarrow>
                      st1\<lparr>userSessions := (userSessions st1)(userId \<mapsto>
                        userSession\<lparr>isReady := False, isInitializing := False,
                                     manuallyDisconnected := False\<rparr>)\<rparr>);
           sessionPath = ''session-'' @ userId;
           st3 = (case removeFault fl of
                    None \<Rightarrow> st2\<lparr>disk := (disk st2)(sessionPath := None)\<rparr>
                  | Some msg \<Rightarrow> st2);
           st4 = sleep 2000 st3
       in initializeUserSession fl now userId sid st4)"

section \<open>Invariants of a run\<close>

definition cachedStatuses :: "(string option \<times> cacheEntry) list \<Rightarrow> status list" where
  "cachedStatuses c = map (\<lambda>e. status (result (snd e))) c"

definition wellFormed :: "checkResult \<Rightarrow> bool" where
  "wellFormed res = (if status res = StatusInvalid then formattedNumber res = None \<and> hasWhatsApp res = JNull else True)"

definition slotsHold :: "(nat \<Rightarrow> checkResult \<Rightarrow> bool) \<Rightarrow> run \<Rightarrow> bool" where
  "slotsHold Q r = (\<forall>j<length (results r). \<forall>res. results r ! j = Some res \<longrightarrow> Q j res)"

definition settledHold :: "(nat \<Rightarrow> checkResult \<Rightarrow> bool) \<Rightarrow> nat \<Rightarrow> run \<Rightarrow> bool" where
  "settledHold Q startIndex r =
    (\<forall>k<length (workers r). \<forall>res. workers r ! k = Running (Resolved res) \<longrightarrow> Q (startIndex + k) res)"

definition doneFilled :: "nat \<Rightarrow> run \<Rightarrow> bool" where
  "doneFilled startIndex r =
    (\<forall>k<length (workers r). workers r ! k = Done \<longrightarrow> results r ! (startIndex + k) \<noteq> None)"

fun pieces :: "worker \<Rightarrow> nat" where
  "pieces Done = 0"
| "pieces (Running (Resolved res)) = 1"
| "pieces (Running (Rejected msg)) = 1"
| "pieces (Running (Querying v)) = 2"
| "pieces (Running (Paced v)) = 3"
| "pieces (Running (Sleeping v)) = 4"
| "pieces (Running Pending) = 5"

definition stepInv ::
  "string \<Rightarrow> string list \<Rightarrow> ((string option \<times> cacheEntry) list \<Rightarrow> bool)
     \<Rightarrow> (nat \<Rightarrow> checkResult \<Rightarrow> bool) \<Rightarrow> bool" where
  "stepInv userId numbers C Q =
    ((\<forall>rep now number t st. C (numberCache st) \<longrightarrow>
         C (numberCache (snd (checkNumber_step rep now number userId t st))))
     \<and> (\<forall>rep now j t st res st'. C (numberCache st) \<and> j < length numbers
           \<and> checkNumber_step rep now (numbers ! j) userId t st = (Resolved res, st')
           \<and> (\<forall>r0. t \<noteq> Resolved r0) \<longrightarrow> Q j res)
     \<and> (\<forall>j msg. j < length numbers \<longrightarrow> Q j (errorResult (numbers ! j) msg)))"

definition runInv :: "((string option \<times> cacheEntry) list \<Rightarrow> bool) \<Rightarrow> (nat \<Rightarrow> checkResult \<Rightarrow> bool) \<Rightarrow> nat \<Rightarrow> run \<Rightarrow> bool" where
  "runInv C Q startIndex r = (C (numberCache (svc r)) \<and> slotsHold Q r \<and> settledHold Q startIndex r)"

definition sliceOf :: "string list \<Rightarrow> nat \<Rightarrow> string list \<Rightarrow> bool" where
  "sliceOf numbers startIndex batch =
    (\<forall>k<length batch. startIndex + k < length numbers \<and> batch ! k = numbers ! (startIndex + k))"

definition loopInv :: "((string option \<times> cacheEntry) list \<Rightarrow> bool) \<Rightarrow> (nat \<Rightarrow> checkResult \<Rightarrow> bool) \<Rightarrow> nat \<Rightarrow> nat \<Rightarrow> run \<Rightarrow> bool" where
  "loopInv C Q n i r =
    (C (numberCache (svc r)) \<and> slotsHold Q r \<and> length (results r) = n \<and> (\<forall>j<n. j < i \<longrightarrow> results r ! j \<noteq> None))"

section \<open>Example states\<close>

definition noFaults :: faults where
  "noFaults = \<lparr>endFault = None, removeFault = None, initFault = None\<rparr>"

definition readySession :: "string \<Rightarrow> session" where
  "readySession sid =
    \<lparr>isReady = True, isInitializing = False, socketId = sid, manuallyDisconnected = False,
     initStartTime = 5000\<rparr>"

definition pairedService :: service where
  "pairedService =
    (constructor [''user-user_1'' \<mapsto> True, ''user-user_2'' \<mapsto> True])
      \<lparr>clients := [''user_1'' \<mapsto> \<lparr>sockId = 0, authDir = ''user-user_1'', hadCreds = False\<rparr>,
                   ''user_2'' \<mapsto> \<lparr>sockId = 1, authDir = ''user-user_2'', hadCreds = False\<rparr>],
       userSessions := [''user_1'' \<mapsto> readySession ''socket-a'', ''user_2'' \<mapsto> readySession ''socket-b''],
       made := 2\<rparr>"

definition exampleNumbers :: "string list" where
  "exampleNumbers = [''03001234567'', ''0300'', ''+14155550123'']"

definition exampleNet :: "nat \<Rightarrow> reply" where
  "exampleNet i = (if i = 2 then Throws ''timed out'' else Entry (JBool True))"

text \<open>A schedule in which the last member of the batch completes first and the first last.\<close>

definition reverseSchedule :: schedule where
  "reverseSchedule =
    ([(2, 100000), (2, 100000), (2, 100400), (2, 100400), (1, 100400), (1, 100400), (0, 100400)],
     100500)"

definition burstNumbers :: "string list" where
  "burstNumbers = [''03001234567'', ''03001234568'', ''03001234569'']"

text \<open>
  The event loop on a batch of three cache misses: the three callbacks start in order at
  100000, the first passes the gate and sends at once, the other two sleep 2000 ms, wake at
  102000 and send; the answers arrive 300 ms after each query.
\<close>

definition burstSchedule :: schedule where
  "burstSchedule =
    ([(0, 100000), (1, 100000), (2, 100000), (0, 100000), (0, 100300), (1, 102000), (2, 102000),
      (1, 102000), (2, 102000), (1, 102300), (2, 102300)], 102400)"

definition initializingSession :: session where
  "initializingSession =
    \<lparr>isReady = False, isInitializing = True, socketId = ''socket-a'',
     manuallyDisconnected = False, initStartTime = 5000\<rparr>"

definition initializingService :: service where
  "initializingService =
    pairedService\<lparr>userSessions := (userSessions pairedService)(''user_1'' \<mapsto> initializingSession)\<rparr>"

definition startedService :: service where
  \<comment> \<open>\<open>pairedService\<close> after \<open>user_3\<close> has called \<open>initializeUserSession\<close> at 10000, at its first \<open>await\<close>\<close>
  "startedService =
    emitTo ''socket-c''
      (WhatsappStatus ''initializing'' ''Starting your WhatsApp session with Baileys...'')
      (pairedService\<lparr>userSessions := (userSessions pairedService)(''user_3'' \<mapsto>
         \<lparr>isReady = False, isInitializing = True, socketId = ''socket-c'',
          manuallyDisconnected = False, initStartTime = 10000\<rparr>)\<rparr>)"

definition cachedEntry :: cacheEntry where
  "cachedEntry =
    \<lparr>result = \<lparr>originalNumber = ''03001234567'', formattedNumber = Some ''+923001234567'',
                error = None, network = Some ''International'', status = StatusValid,
                hasWhatsApp = JBool True, fromCache = Some False\<rparr>,
     timestamp = 1000\<rparr>"

definition cachedService :: service where
  "cachedService = pairedService\<lparr>numberCache := [(Some ''+923001234567'', cachedEntry)]\<rparr>"

text \<open>\<open>pairedService\<close> after a query of \<open>user_1\<close> sent at 100000.\<close>

definition pacedService :: service where
  "pacedService =
    pairedService\<lparr>lastCheckTime := 100000,
      queried := [(''user_1'', ''923001234567@s.whatsapp.net'', 100000)]\<rparr>"

declare checkLoop.simps [simp del]

section \<open>Properties of the validator\<close>

lemmas validator_defs =
  validateNumber_def cleanNumber_def trim_def isWhiteSpace_def startsWith_def isDigit_def
  validateInternationalNumber_def intlRegex_def

lemma isDigit_not_space: "isDigit c \<Longrightarrow> \<not> isWhiteSpace c"
  by (auto simp: isDigit_def isWhiteSpace_def)

lemma isDigit_not_plus [simp]: "\<not> isDigit CHR ''+''"
  by (simp add: isDigit_def)

lemma filter_dropWhile_ws: "filter isDigit (dropWhile isWhiteSpace xs) = filter isDigit xs"
  by (induction xs) (auto dest: isDigit_not_space)

lemma filter_trim: "filter isDigit (trim s) = filter isDigit s"
proof -
  have "filter isDigit (trim s) = rev (filter isDigit (dropWhile isWhiteSpace (rev (dropWhile isWhiteSpace s))))"
    by (simp add: trim_def rev_filter)
  also have "\<dots> = rev (filter isDigit (rev (dropWhile isWhiteSpace s)))"
    by (simp add: filter_dropWhile_ws)
  also have "\<dots> = filter isDigit (dropWhile isWhiteSpace s)"
    by (simp add: rev_filter)
  also have "\<dots> = filter isDigit s"
    by (simp add: filter_dropWhile_ws)
  finally show ?thesis .
qed

lemma cleanNumber_filter: "cleanNumber s = filter isDigit s"
proof (cases "s = []")
  case True
  then show ?thesis by (simp add: cleanNumber_def)
next
  case False
  have strip: "filter isDigit (if startsWith t ''+'' then drop 1 t else t) = filter isDigit t" for t
    by (cases t) (auto simp: startsWith_def)
  show ?thesis
    using False by (simp add: cleanNumber_def Let_def strip filter_trim del: One_nat_def)
qed

lemma cleanNumber_digits: "list_all isDigit (cleanNumber s)"
  by (simp add: cleanNumber_filter list_all_iff)

lemma digits_not_plus: "list_all isDigit c \<Longrightarrow> c \<noteq> [] \<Longrightarrow> \<not> startsWith c ''+''"
  by (cases c) (auto simp: startsWith_def)

lemma list_all_drop: "list_all P xs \<Longrightarrow> list_all P (drop n xs)"
  by (auto simp: list_all_iff dest: in_set_dropD)

lemma intl_valid_mid:
  assumes d: "list_all isDigit c" and lo: "9 \<le> length c" and hi: "length c \<le> 14"
  shows "isValid (validateInternationalNumber c)"
proof -
  have ne: "c \<noteq> []" using lo by auto
  have np: "\<not> startsWith c ''+''" using d ne by (rule digits_not_plus)
  have r1: "intlRegex (''+'' @ drop 2 c)"
    using d lo hi by (auto simp: intlRegex_def list_all_drop)
  have r2: "intlRegex (''+'' @ c)"
    using d lo hi by (simp add: intlRegex_def)
  have r3: "length c = 11 \<Longrightarrow> intlRegex (''+92'' @ drop 1 c)"
    using d by (simp add: intlRegex_def list_all_drop isDigit_def)
  show ?thesis
    using np lo hi r1 r2 r3 by (simp add: validateInternationalNumber_def Let_def)
qed

lemma mobileAt_length: "mobileAt s = Some m \<Longrightarrow> length m = 9"
  by (auto simp: mobileAt_def split: if_splits)

lemma matchAt_length: "matchAt s = Some m \<Longrightarrow> length m = 9"
  by (auto simp: matchAt_def split: if_splits dest: mobileAt_length)

lemma matchPakistani_length: "matchPakistani s = Some m \<Longrightarrow> length m = 9"
  by (induction s) (auto split: option.splits dest: matchAt_length)

lemma pkValid_length: "pkValid (validatePakistaniNumber f) \<Longrightarrow> length f = 13"
  by (auto simp: validatePakistaniNumber_def Let_def split: if_splits)

lemma formatNumber_length:
  assumes d: "list_all isDigit c" and f: "formatNumber c = Some f"
    and len: "length c < 9 \<or> 15 \<le> length c"
  shows "length f \<noteq> 13"
proof -
  have ne: "c \<noteq> []" using f by (auto simp: formatNumber_def)
  have np: "\<not> startsWith c ''+''" using d ne by (rule digits_not_plus)
  show ?thesis
    using f len np
    by (auto simp: formatNumber_def split: if_splits option.splits dest: matchPakistani_length)
qed

lemma valid_is_international:
  assumes v: "isValid (validateNumber s)"
  shows "validateNumber s = validateInternationalNumber (cleanNumber s)
         \<and> isValid (validateInternationalNumber (cleanNumber s))"
proof (rule ccontr)
  assume n: "\<not> ?thesis"
  let ?c = "cleanNumber s"
  have ne: "?c \<noteq> []" using v by (auto simp: validateNumber_def Let_def)
  have ni: "\<not> isValid (validateInternationalNumber ?c)"
    using n ne by (auto simp: validateNumber_def Let_def)
  have len: "length ?c < 9 \<or> 15 \<le> length ?c"
    using ni intl_valid_mid [OF cleanNumber_digits, of s] by force
  from v ne ni obtain f where f: "formatNumber ?c = Some f"
    and pk: "pkValid (validatePakistaniNumber f)"
    by (auto simp: validateNumber_def Let_def split: option.splits if_splits)
  from formatNumber_length [OF cleanNumber_digits f len] pkValid_length [OF pk]
  show False by simp
qed

lemma valid_network_international:
  "isValid (validateNumber s) \<Longrightarrow> network (validateNumber s) = Some ''International''"
  using valid_is_international [of s]
  by (auto simp: validateInternationalNumber_def Let_def split: if_splits)

lemma intl_valid_length:
  "isValid (validateInternationalNumber c) \<Longrightarrow> 7 \<le> length c \<and> length c \<le> 15"
  by (auto simp: validateInternationalNumber_def Let_def split: if_splits)

lemma rejects_by_length:
  "s = [] \<or> length (cleanNumber s) < 7 \<or> 15 < length (cleanNumber s) \<Longrightarrow> \<not> isValid (validateNumber s)"
proof
  assume a: "s = [] \<or> length (cleanNumber s) < 7 \<or> 15 < length (cleanNumber s)" and v: "isValid (validateNumber s)"
  have "s = [] \<Longrightarrow> length (cleanNumber s) < 7" by (simp add: cleanNumber_def)
  with a have "length (cleanNumber s) < 7 \<or> 15 < length (cleanNumber s)" by blast
  with intl_valid_length valid_is_international [OF v] show False by fastforce
qed

lemma valid_canonical_shape:
  assumes v: "isValid (validateNumber s)" and c: "formattedNumber (validateNumber s) = Some c"
  shows "intlRegex c"
  using valid_is_international [OF v] c
  by (auto simp: validateInternationalNumber_def Let_def split: if_splits)

lemma canonical_fixed:
  assumes r: "intlRegex c"
    and n00: "\<not> startsWith (drop 1 c) ''00''"
    and n03: "\<not> (length c = 12 \<and> startsWith (drop 1 c) ''03'')"
  shows "validateNumber c =
    \<lparr>originalNumber = drop 1 c, formattedNumber = Some c, error = None,
     network = Some ''International'', isValid = True\<rparr>"
proof -
  from r obtain ds where c: "c = CHR ''+'' # ds" and d: "list_all isDigit ds"
    and lo: "7 \<le> length ds" and hi: "length ds \<le> 14"
    by (auto simp: intlRegex_def split: list.splits)
  have cl: "cleanNumber c = ds"
    using d by (simp add: cleanNumber_filter c list_all_iff)
  have ne: "ds \<noteq> []" using lo by auto
  have np: "\<not> startsWith ds ''+''" using d ne by (rule digits_not_plus)
  have r2: "intlRegex (''+'' @ ds)" using r c by simp
  have iv: "validateInternationalNumber ds =
    \<lparr>originalNumber = ds, formattedNumber = Some c, error = None,
     network = Some ''International'', isValid = True\<rparr>"
    using np lo hi n00 n03 r2 c by (auto simp: validateInternationalNumber_def Let_def)
  show ?thesis
    using ne by (simp add: validateNumber_def Let_def cl iv) (simp add: c)
qed

section \<open>Properties of the service\<close>

lemma cachedStatuses_delete:
  "x \<notin> set (cachedStatuses c) \<Longrightarrow> x \<notin> set (cachedStatuses (AList.delete k c))"
  by (induction c) (auto simp: cachedStatuses_def)

lemma cachedStatuses_update:
  "x \<notin> set (cachedStatuses c) \<Longrightarrow> status (result e) \<noteq> x \<Longrightarrow> x \<notin> set (cachedStatuses (AList.update k e c))"
  by (induction c) (auto simp: cachedStatuses_def)

lemma cachedStatuses_filter:
  "x \<notin> set (cachedStatuses c) \<Longrightarrow> x \<notin> set (cachedStatuses (filter P c))"
  by (induction c) (auto simp: cachedStatuses_def)

lemma cachedStatuses_lookup:
  "x \<notin> set (cachedStatuses c) \<Longrightarrow> map_of c k = Some e \<Longrightarrow> status (result e) \<noteq> x"
  by (force simp: cachedStatuses_def dest!: map_of_SomeD)

lemma getCachedResult_avoids:
  "x \<notin> set (cachedStatuses (numberCache st)) \<Longrightarrow>
   x \<notin> set (cachedStatuses (numberCache (snd (getCachedResult now k st))))"
  by (auto simp: getCachedResult_def cachedStatuses_delete split: option.splits)

lemma getCachedResult_hit_status:
  "x \<notin> set (cachedStatuses (numberCache st)) \<Longrightarrow> getCachedResult now k st = (Some r, st') \<Longrightarrow>
   status r \<noteq> x"
  by (auto simp: getCachedResult_def split: option.splits if_splits dest: cachedStatuses_lookup)

lemma cleanupCache_avoids:
  "x \<notin> set (cachedStatuses (numberCache st)) \<Longrightarrow>
   x \<notin> set (cachedStatuses (numberCache (cleanupCache now st)))"
  by (simp add: cleanupCache_def cachedStatuses_filter)

lemma setCachedResult_avoids:
  "x \<notin> set (cachedStatuses (numberCache st)) \<Longrightarrow> status r \<noteq> x \<Longrightarrow>
   x \<notin> set (cachedStatuses (numberCache (setCachedResult now k r st)))"
  by (simp add: setCachedResult_def Let_def cleanupCache_avoids cachedStatuses_update)

text \<open>The keys of the cache stay distinct.\<close>

lemma getCachedResult_distinct:
  "distinct (map fst (numberCache st)) \<Longrightarrow>
   distinct (map fst (numberCache (snd (getCachedResult now k st))))"
  by (auto simp: getCachedResult_def distinct_delete split: option.splits)

lemma setCachedResult_distinct:
  "distinct (map fst (numberCache st)) \<Longrightarrow>
   distinct (map fst (numberCache (setCachedResult now k r st)))"
  by (simp add: setCachedResult_def cleanupCache_def Let_def distinct_update distinct_map_filter)

lemma waitForRateLimit_enter_cache:
  "numberCache (snd (waitForRateLimit_enter now st)) = numberCache st"
  by (simp add: waitForRateLimit_enter_def sleep_def Let_def)

lemma checkNumber_start_avoids:
  assumes "x \<notin> set (cachedStatuses (numberCache st))"
  shows "x \<notin> set (cachedStatuses (numberCache (snd (checkNumber_start now number userId st))))"
proof -
  let ?k = "formattedNumber (validateNumber number)"
  have g: "x \<notin> set (cachedStatuses (numberCache (snd (getCachedResult now ?k st))))"
    using assms by (rule getCachedResult_avoids)
  show ?thesis
    using assms g waitForRateLimit_enter_cache [of now "snd (getCachedResult now ?k st)"]
    by (auto simp: checkNumber_start_def Let_def split: prod.splits option.splits)
qed

lemma checkNumber_reply_avoids:
  assumes "x \<notin> set (cachedStatuses (numberCache st))" and "x \<noteq> StatusValid"
  shows "x \<notin> set (cachedStatuses (numberCache (snd (checkNumber_reply rep now number v st))))"
  using assms by (cases rep) (simp_all add: checkNumber_reply_def Let_def setCachedResult_avoids)

lemma checkNumber_step_avoids:
  assumes "x \<notin> set (cachedStatuses (numberCache st))" and "x \<noteq> StatusValid"
  shows "x \<notin> set (cachedStatuses (numberCache (snd (checkNumber_step rep now number userId t st))))"
  using assms
  by (cases t) (simp_all add: checkNumber_step_def checkNumber_start_avoids checkNumber_reply_avoids
      waitForRateLimit_resume_def)




lemma checkNumber_start_wellFormed:
  assumes "StatusInvalid \<notin> set (cachedStatuses (numberCache st))"
    and "checkNumber_start now number userId st = (Resolved res, st')"
  shows "wellFormed res"
  using assms
  by (auto simp: checkNumber_start_def Let_def wellFormed_def
      split: if_splits prod.splits option.splits dest: getCachedResult_hit_status)

lemma checkNumber_reply_wellFormed:
  "checkNumber_reply rep now number v st = (Resolved res, st') \<Longrightarrow> wellFormed res"
  by (cases rep) (auto simp: checkNumber_reply_def Let_def wellFormed_def)

lemma checkNumber_step_wellFormed:
  assumes "StatusInvalid \<notin> set (cachedStatuses (numberCache st))"
    and "checkNumber_step rep now number userId t st = (Resolved res, st')"
    and "\<forall>r0. t \<noteq> Resolved r0"
  shows "wellFormed res"
  using assms
  by (cases t) (auto simp: checkNumber_step_def dest: checkNumber_start_wellFormed checkNumber_reply_wellFormed)

lemma workerStep_out_of_range:
  "\<not> (fst ev < length (workers r) \<and> fst ev < length batch) \<Longrightarrow>
   workerStep net userId total' batch startIndex ev r = r"
  by (auto simp: workerStep_def Let_def)

lemma workerStep_Done:
  "workers r ! fst ev = Done \<Longrightarrow> workerStep net userId total' batch startIndex ev r = r"
  by (simp add: workerStep_def Let_def)

lemma workerStep_Resolved:
  "fst ev < length (workers r) \<Longrightarrow> fst ev < length batch \<Longrightarrow>
   workers r ! fst ev = Running (Resolved res) \<Longrightarrow>
   workerStep net userId total' batch startIndex ev r =
     finishWorker (batch ! fst ev) total' (startIndex + fst ev) (fst ev) res r"
  by (simp add: workerStep_def Let_def)

lemma workerStep_Rejected:
  "fst ev < length (workers r) \<Longrightarrow> fst ev < length batch \<Longrightarrow>
   workers r ! fst ev = Running (Rejected msg) \<Longrightarrow>
   workerStep net userId total' batch startIndex ev r =
     finishWorker (batch ! fst ev) total' (startIndex + fst ev) (fst ev)
       (errorResult (batch ! fst ev) msg) r"
  by (simp add: workerStep_def Let_def)

lemma workerStep_unsettled:
  "fst ev < length (workers r) \<Longrightarrow> fst ev < length batch \<Longrightarrow>
   workers r ! fst ev = Running t \<Longrightarrow> \<forall>res. t \<noteq> Resolved res \<Longrightarrow> \<forall>msg. t \<noteq> Rejected msg \<Longrightarrow>
   workerStep net userId total' batch startIndex ev r =
     r\<lparr>svc := snd (checkNumber_step (net (startIndex + fst ev)) (snd ev) (batch ! fst ev) userId t (svc r)),
       workers := (workers r)[fst ev :=
         Running (fst (checkNumber_step (net (startIndex + fst ev)) (snd ev) (batch ! fst ev) userId t (svc r)))]\<rparr>"
  by (cases t) (simp_all add: workerStep_def Let_def split: prod.splits)

text \<open>Case analysis for one event.\<close>

lemma workerStep_cases [consumes 0, case_names Skip Finish Fail Advance]:
  assumes "(fst ev < length (workers r) \<and> fst ev < length batch \<longrightarrow> workers r ! fst ev = Done) \<Longrightarrow>
           workerStep net userId total' batch startIndex ev r = r \<Longrightarrow> P"
    and "\<And>res. fst ev < length (workers r) \<Longrightarrow> fst ev < length batch \<Longrightarrow>
           workers r ! fst ev = Running (Resolved res) \<Longrightarrow>
           workerStep net userId total' batch startIndex ev r =
             finishWorker (batch ! fst ev) total' (startIndex + fst ev) (fst ev) res r \<Longrightarrow> P"
    and "\<And>msg. fst ev < length (workers r) \<Longrightarrow> fst ev < length batch \<Longrightarrow>
           workers r ! fst ev = Running (Rejected msg) \<Longrightarrow>
           workerStep net userId total' batch startIndex ev r =
             finishWorker (batch ! fst ev) total' (startIndex + fst ev) (fst ev)
               (errorResult (batch ! fst ev) msg) r \<Longrightarrow> P"
    and "\<And>t. fst ev < length (workers r) \<Longrightarrow> fst ev < length batch \<Longrightarrow>
           workers r ! fst ev = Running t \<Longrightarrow> \<forall>res. t \<noteq> Resolved res \<Longrightarrow> \<forall>msg. t \<noteq> Rejected msg \<Longrightarrow>
           workerStep net userId total' batch startIndex ev r =
             r\<lparr>svc := snd (checkNumber_step (net (startIndex + fst ev)) (snd ev) (batch ! fst ev) userId t (svc r)),
               workers := (workers r)[fst ev :=
                 Running (fst (checkNumber_step (net (startIndex + fst ev)) (snd ev) (batch ! fst ev) userId t (svc r)))]\<rparr> \<Longrightarrow> P"
  shows P
proof (cases "fst ev < length (workers r) \<and> fst ev < length batch")
  case False
  then show ?thesis using assms(1) workerStep_out_of_range by blast
next
  case True
  show ?thesis
  proof (cases "workers r ! fst ev")
    case Done
    then show ?thesis using assms(1) True workerStep_Done by blast
  next
    case (Running t)
    show ?thesis
    proof (cases t)
      case (Resolved res)
      then show ?thesis using assms(2) True Running workerStep_Resolved by blast
    next
      case (Rejected msg)
      then show ?thesis using assms(3) True Running workerStep_Rejected by blast
    qed (use assms(4) True Running workerStep_unsettled in blast)+
  qed
qed

lemma workerStep_lengths:
  "length (workers (workerStep net userId total' batch startIndex ev r)) = length (workers r)
   \<and> length (results (workerStep net userId total' batch startIndex ev r)) = length (results r)"
  by (cases rule: workerStep_cases [where net = net and userId = userId and total' = total' and batch = batch
      and startIndex = startIndex and ev = ev and r = r])
     (simp_all add: finishWorker_def)

lemma workerStep_filled:
  assumes "results r ! j \<noteq> None"
  shows "results (workerStep net userId total' batch startIndex ev r) ! j \<noteq> None"
proof (cases rule: workerStep_cases [where net = net and userId = userId and total' = total' and batch = batch
      and startIndex = startIndex and ev = ev and r = r])
  case Skip
  then show ?thesis using assms by simp
next
  case (Finish res)
  then show ?thesis using assms
    by (cases "startIndex + fst ev < length (results r)")
       (auto simp: finishWorker_def nth_list_update list_update_beyond)
next
  case (Fail msg)
  then show ?thesis using assms
    by (cases "startIndex + fst ev < length (results r)")
       (auto simp: finishWorker_def nth_list_update list_update_beyond)
next
  case (Advance t)
  then show ?thesis using assms by simp
qed

lemma workerStep_doneFilled:
  assumes "doneFilled startIndex r" and "startIndex + length batch \<le> length (results r)"
  shows "doneFilled startIndex (workerStep net userId total' batch startIndex ev r)"
proof (cases rule: workerStep_cases [where net = net and userId = userId and total' = total' and batch = batch
      and startIndex = startIndex and ev = ev and r = r])
  case Skip
  then show ?thesis using assms by simp
next
  case (Finish res)
  then show ?thesis using assms
    by (auto simp: doneFilled_def finishWorker_def nth_list_update)
next
  case (Fail msg)
  then show ?thesis using assms
    by (auto simp: doneFilled_def finishWorker_def nth_list_update)
next
  case (Advance t)
  then show ?thesis using assms
    by (auto simp: doneFilled_def nth_list_update)
qed

lemma workerStep_done_stays:
  assumes "workers r ! k = Done"
  shows "workers (workerStep net userId total' batch startIndex ev r) ! k = Done"
proof (cases rule: workerStep_cases [where net = net and userId = userId and total' = total' and batch = batch
      and startIndex = startIndex and ev = ev and r = r])
  case Skip
  then show ?thesis using assms by simp
next
  case (Finish res)
  then show ?thesis using assms by (auto simp: finishWorker_def nth_list_update)
next
  case (Fail msg)
  then show ?thesis using assms by (auto simp: finishWorker_def nth_list_update)
next
  case (Advance t)
  then show ?thesis using assms by (auto simp: nth_list_update)
qed

lemma checkNumber_start_pieces:
  "pieces (Running (fst (checkNumber_start now number userId st))) \<le> 4"
  by (auto simp: checkNumber_start_def Let_def split: prod.splits option.splits)

lemma checkNumber_reply_pieces:
  "pieces (Running (fst (checkNumber_reply rep now number v st))) \<le> 1"
  by (cases rep) (auto simp: checkNumber_reply_def Let_def)

lemma checkNumber_step_pieces:
  "\<forall>res. t \<noteq> Resolved res \<Longrightarrow> \<forall>msg. t \<noteq> Rejected msg \<Longrightarrow>
   pieces (Running (fst (checkNumber_step rep now number userId t st))) < pieces (Running t)"
proof (cases t)
  case Pending
  then show ?thesis
    using checkNumber_start_pieces [of now number userId st] by (simp add: checkNumber_step_def)
next
  case (Querying v)
  then show ?thesis
    using checkNumber_reply_pieces [of rep now number v st] by (simp add: checkNumber_step_def)
qed (simp_all add: checkNumber_step_def)

lemma workerStep_pieces:
  assumes "k < length (workers r)" and "k < length batch"
  shows "pieces (workers (workerStep net userId total' batch startIndex (k, now) r) ! k)
         \<le> pieces (workers r ! k) - 1"
proof (cases rule: workerStep_cases [where net = net and userId = userId and total' = total' and batch = batch
      and startIndex = startIndex and ev = "(k, now)" and r = r])
  case Skip
  then show ?thesis using assms by simp
next
  case (Finish res)
  then show ?thesis using assms by (auto simp: finishWorker_def)
next
  case (Fail msg)
  then show ?thesis using assms by (auto simp: finishWorker_def)
next
  case (Advance t)
  then show ?thesis
    using assms checkNumber_step_pieces [of t "net (startIndex + k)" now "batch ! k" userId "svc r"]
    by auto
qed

lemma pieces_le_5: "pieces w \<le> 5"
  by (cases w rule: pieces.cases) auto

lemma pieces_0: "pieces w = 0 \<Longrightarrow> w = Done"
  by (cases w rule: pieces.cases) auto

lemma settleWorker_done:
  assumes "k < length (workers r)" and "k < length batch"
  shows "workers (settleWorker net userId total' batch startIndex now k r) ! k = Done"
proof -
  let ?s = "workerStep net userId total' batch startIndex (k, now)"
  have len: "\<And>r'. length (workers (?s r')) = length (workers r')"
    by (simp add: workerStep_lengths)
  have step: "\<And>r'. k < length (workers r') \<Longrightarrow> pieces (workers (?s r') ! k) \<le> pieces (workers r' ! k) - 1"
    using assms(2) workerStep_pieces by simp
  have p1: "pieces (workers (?s r) ! k) \<le> 4"
    using step [of r] assms(1) pieces_le_5 [of "workers r ! k"] by linarith
  have p2: "pieces (workers (?s (?s r)) ! k) \<le> 3"
    using step [of "?s r"] assms(1) p1 len by simp
  have p3: "pieces (workers (?s (?s (?s r))) ! k) \<le> 2"
    using step [of "?s (?s r)"] assms(1) p2 len by simp
  have p4: "pieces (workers (?s (?s (?s (?s r)))) ! k) \<le> 1"
    using step [of "?s (?s (?s r))"] assms(1) p3 len by simp
  have p5: "pieces (workers (?s (?s (?s (?s (?s r))))) ! k) \<le> 0"
    using step [of "?s (?s (?s (?s r)))"] assms(1) p4 len by simp
  then show ?thesis
    by (simp add: settleWorker_def Let_def pieces_0)
qed

text \<open>What every event preserves is preserved by settling a worker and by a whole schedule.\<close>

lemma settleWorker_preserves:
  assumes "\<And>ev r. P r \<Longrightarrow> P (workerStep net userId total' batch startIndex ev r)" and "P r"
  shows "P (settleWorker net userId total' batch startIndex now k r)"
  using assms by (simp add: settleWorker_def Let_def)

lemma fold_preserves:
  assumes "\<And>x r. P r \<Longrightarrow> P (f x r)" and "P r"
  shows "P (fold f xs r)"
  using assms(2) by (induction xs arbitrary: r) (auto intro: assms(1))

lemma settle_all_done:
  assumes "m \<le> length (workers r)" and "m \<le> length batch" and "k < m"
  shows "workers (fold (settleWorker net userId total' batch startIndex now) [0..<m] r) ! k = Done"
  using assms
proof (induction m arbitrary: k)
  case 0
  then show ?case by simp
next
  case (Suc m)
  let ?r = "fold (settleWorker net userId total' batch startIndex now) [0..<m] r"
  have len: "length (workers ?r) = length (workers r)"
    by (rule fold_preserves [where P = "\<lambda>x. length (workers x) = length (workers r)"])
       (auto intro: settleWorker_preserves simp: workerStep_lengths)
  show ?case
  proof (cases "k = m")
    case True
    then show ?thesis using Suc.prems len by (simp add: settleWorker_done)
  next
    case False
    then have "workers ?r ! k = Done" using Suc by simp
    then have "workers (settleWorker net userId total' batch startIndex now m ?r) ! k = Done"
      by (rule settleWorker_preserves [where P = "\<lambda>x. workers x ! k = Done", rotated])
         (rule workerStep_done_stays)
    then show ?thesis by simp
  qed
qed

lemma sliceOf_take_drop: "sliceOf numbers i (take m (drop i numbers))"
  by (auto simp: sliceOf_def)

lemma stepInv_step:
  "stepInv userId numbers C Q \<Longrightarrow> C (numberCache st) \<Longrightarrow>
   C (numberCache (snd (checkNumber_step rep now number userId t st)))"
  unfolding stepInv_def by blast

lemma stepInv_resolved:
  "stepInv userId numbers C Q \<Longrightarrow> C (numberCache st) \<Longrightarrow> j < length numbers \<Longrightarrow>
   checkNumber_step rep now (numbers ! j) userId t st = (Resolved res, st') \<Longrightarrow>
   \<forall>r0. t \<noteq> Resolved r0 \<Longrightarrow> Q j res"
  unfolding stepInv_def by blast

lemma stepInv_error:
  "stepInv userId numbers C Q \<Longrightarrow> j < length numbers \<Longrightarrow> Q j (errorResult (numbers ! j) msg)"
  unfolding stepInv_def by blast

lemma finishWorker_sel:
  "svc (finishWorker number total' actualIndex index res r) =
     (svc r)\<lparr>progressed := progressed (svc r) @ [(completed r + 1, total', number)]\<rparr>"
  "results (finishWorker number total' actualIndex index res r) = (results r)[actualIndex := Some res]"
  "workers (finishWorker number total' actualIndex index res r) = (workers r)[index := Done]"
  by (simp_all add: finishWorker_def)

lemma nth_update_cases: "j < length xs \<Longrightarrow> xs[i := v] ! j = (if i = j then v else xs ! j)"
  by (cases "i = j") auto

lemma slotsHold_write:
  assumes "slotsHold Q r" and "Q i v" and "results r' = (results r)[i := Some v]"
  shows "slotsHold Q r'"
  using assms by (auto simp: slotsHold_def nth_update_cases split: if_splits)

lemma settledHold_done:
  assumes "settledHold Q startIndex r" and "workers r' = (workers r)[k := Done]"
  shows "settledHold Q startIndex r'"
  using assms by (auto simp: settledHold_def nth_update_cases split: if_splits)

lemma settledHold_running:
  assumes "settledHold Q startIndex r" and "workers r' = (workers r)[k := Running t]"
    and "\<And>res. t = Resolved res \<Longrightarrow> Q (startIndex + k) res"
  shows "settledHold Q startIndex r'"
  using assms by (auto simp: settledHold_def nth_update_cases split: if_splits)

lemma runInv_finish:
  assumes si: "stepInv userId numbers C Q" and inv: "runInv C Q startIndex r"
    and q: "Q (startIndex + k) res"
  shows "runInv C Q startIndex (finishWorker number total' (startIndex + k) k res r)"
proof -
  let ?r = "finishWorker number total' (startIndex + k) k res r"
  have "numberCache (svc ?r) = numberCache (svc r)" by (simp add: finishWorker_sel)
  moreover have "slotsHold Q ?r"
    by (rule slotsHold_write [of Q r]) (use inv q in \<open>simp_all add: runInv_def finishWorker_sel\<close>)
  moreover have "settledHold Q startIndex ?r"
    by (rule settledHold_done [of Q startIndex r]) (use inv in \<open>simp_all add: runInv_def finishWorker_sel\<close>)
  ultimately show ?thesis using inv by (simp add: runInv_def)
qed

lemma workerStep_runInv:
  assumes si: "stepInv userId numbers C Q" and sl: "sliceOf numbers startIndex batch"
    and inv: "runInv C Q startIndex r"
  shows "runInv C Q startIndex (workerStep net userId total' batch startIndex ev r)"
proof (cases rule: workerStep_cases [where net = net and userId = userId and total' = total' and batch = batch
      and startIndex = startIndex and ev = ev and r = r])
  case Skip
  then show ?thesis using inv by simp
next
  case (Finish res)
  have q: "Q (startIndex + fst ev) res"
    using inv Finish(1,3) unfolding runInv_def settledHold_def by blast
  show ?thesis unfolding Finish(4) using si inv q by (rule runInv_finish)
next
  case (Fail msg)
  have "startIndex + fst ev < length numbers" and "batch ! fst ev = numbers ! (startIndex + fst ev)"
    using sl Fail(2) by (auto simp: sliceOf_def)
  then have q: "Q (startIndex + fst ev) (errorResult (batch ! fst ev) msg)"
    using stepInv_error [OF si, of "startIndex + fst ev" msg] by simp
  show ?thesis unfolding Fail(4) using si inv q by (rule runInv_finish)
next
  case (Advance t)
  let ?step = "checkNumber_step (net (startIndex + fst ev)) (snd ev) (batch ! fst ev) userId t (svc r)"
  let ?r = "r\<lparr>svc := snd ?step, workers := (workers r)[fst ev := Running (fst ?step)]\<rparr>"
  have cr: "C (numberCache (svc r))" using inv by (simp add: runInv_def)
  have c: "C (numberCache (snd ?step))"
    using si cr by (rule stepInv_step)
  have b: "batch ! fst ev = numbers ! (startIndex + fst ev)" and j: "startIndex + fst ev < length numbers"
    using sl Advance(2) by (auto simp: sliceOf_def)
  have q: "Q (startIndex + fst ev) res" if "fst ?step = Resolved res" for res
  proof -
    have "checkNumber_step (net (startIndex + fst ev)) (snd ev) (numbers ! (startIndex + fst ev)) userId t (svc r)
          = (Resolved res, snd ?step)"
      using that b by (simp add: prod_eq_iff)
    with si cr j show ?thesis
      using Advance(4) by (rule stepInv_resolved)
  qed
  have "slotsHold Q ?r" using inv by (simp add: runInv_def slotsHold_def)
  moreover have "settledHold Q startIndex ?r"
    by (rule settledHold_running [of Q startIndex r ?r "fst ev" "fst ?step"])
       (use inv q in \<open>simp_all add: runInv_def\<close>)
  ultimately show ?thesis unfolding Advance(6) using c by (simp add: runInv_def)
qed

text \<open>The state between two batches: every written slot is right, the slots below \<open>i\<close> are written.\<close>

lemma processBatch_loopInv:
  assumes si: "stepInv userId numbers C Q" and sl: "sliceOf numbers i batch"
    and inv: "loopInv C Q (length numbers) i r"
    and m: "i + length batch \<le> length numbers"
  shows "loopInv C Q (length numbers) (i + length batch)
           (processBatch net userId total' batch i sched r)"
proof -
  let ?W = "workerStep net userId total' batch i"
  let ?S = "settleWorker net userId total' batch i (snd sched)"
  let ?r1 = "r\<lparr>workers := replicate (length batch) (Running Pending)\<rparr>"
  let ?r2 = "fold ?W (fst sched) ?r1"
  let ?r3 = "fold ?S [0..<length batch] ?r2"
  have pb: "processBatch net userId total' batch i sched r = ?r3"
    by (simp add: processBatch_def Let_def)
  text \<open>a property every event preserves holds at the end when it holds at the start\<close>
  have pres: "P ?r3" if "\<And>ev x. P x \<Longrightarrow> P (?W ev x)" and "P ?r1" for P
  proof -
    have "P ?r2" using that by (rule fold_preserves)
    then show ?thesis
      by (rule fold_preserves [rotated]) (rule settleWorker_preserves, rule that(1))
  qed
  have inv1: "runInv C Q i ?r1"
    using inv by (auto simp: loopInv_def runInv_def slotsHold_def settledHold_def)
  have inv3: "runInv C Q i ?r3"
  proof (rule pres)
    show "runInv C Q i (?W ev x)" if "runInv C Q i x" for ev x
      using si sl that by (rule workerStep_runInv)
  qed (rule inv1)
  have len3: "length (workers ?r3) = length batch \<and> length (results ?r3) = length numbers"
    by (rule pres) (use inv in \<open>auto simp: workerStep_lengths loopInv_def\<close>)
  have df3: "doneFilled i ?r3 \<and> i + length batch \<le> length (results ?r3)"
  proof (rule pres)
    show "doneFilled i ?r1 \<and> i + length batch \<le> length (results ?r1)"
      using inv m by (auto simp: doneFilled_def loopInv_def)
  qed (auto simp: workerStep_lengths intro: workerStep_doneFilled)
  have old: "results ?r3 ! j \<noteq> None" if o: "results r ! j \<noteq> None" for j
  proof (rule pres)
    show "results (?W ev x) ! j \<noteq> None" if "results x ! j \<noteq> None" for ev x
      using that by (rule workerStep_filled)
    show "results ?r1 ! j \<noteq> None" using o by simp
  qed
  have len2: "length (workers ?r2) = length batch"
    by (rule fold_preserves [where P = "\<lambda>x. length (workers x) = length batch"])
       (auto simp: workerStep_lengths)
  have dn: "workers ?r3 ! k = Done" if "k < length batch" for k
    using settle_all_done [of "length batch" ?r2 batch k] that len2 by simp
  have new: "results ?r3 ! j \<noteq> None" if "i \<le> j" and "j < i + length batch" for j
  proof -
    have "j - i < length batch" using that by arith
    then have "results ?r3 ! (i + (j - i)) \<noteq> None"
      using df3 dn len3 by (auto simp: doneFilled_def)
    then show ?thesis using that by simp
  qed
  have filled: "results ?r3 ! j \<noteq> None" if "j < length numbers" and "j < i + length batch" for j
  proof (cases "j < i")
    case True
    then show ?thesis using inv that old by (auto simp: loopInv_def)
  next
    case False
    then show ?thesis using new that by simp
  qed
  show ?thesis
    unfolding pb using inv3 len3 filled by (auto simp: loopInv_def runInv_def)
qed

lemma loopInv_sleep:
  assumes "stepInv userId numbers C Q" and "loopInv C Q n i r"
  shows "loopInv C Q n i (r\<lparr>svc := sleep ms (svc r)\<rparr>)"
proof -
  have "numberCache (sleep ms (svc r)) = numberCache (svc r)"
    by (simp add: sleep_def)
  then show ?thesis using assms(2) by (auto simp: loopInv_def slotsHold_def)
qed

lemma loopInv_index:
  "loopInv C Q n i r \<Longrightarrow> \<forall>j<n. j < i' \<longrightarrow> j < i \<Longrightarrow> loopInv C Q n i' r"
  by (simp add: loopInv_def)

lemma loop_body_loopInv:
  assumes si: "stepInv userId numbers C Q" and inv: "loopInv C Q (length numbers) i r"
    and less: "i < length numbers" and b: "batch = take maxConcurrent (drop i numbers)"
    and r1: "r1 = processBatch net userId (length numbers) batch i sched r"
    and r2: "r2 = (if i + maxConcurrent < length numbers then r1\<lparr>svc := sleep 1000 (svc r1)\<rparr> else r1)"
  shows "loopInv C Q (length numbers) (i + maxConcurrent) r2"
proof -
  have sl: "sliceOf numbers i batch" unfolding b by (rule sliceOf_take_drop)
  have lb: "length batch = min maxConcurrent (length numbers - i)" by (simp add: b)
  then have le: "i + length batch \<le> length numbers" using less by simp
  have i1: "loopInv C Q (length numbers) (i + length batch) r1"
    unfolding r1 using si sl inv le by (rule processBatch_loopInv)
  have i2: "loopInv C Q (length numbers) (i + length batch) r2"
    unfolding r2 using i1 loopInv_sleep [OF si i1] by (cases "i + maxConcurrent < length numbers") simp_all
  show ?thesis
    using i2 by (rule loopInv_index) (use lb in auto)
qed

lemma checkLoop_loopInv:
  "stepInv userId numbers C Q \<Longrightarrow> loopInv C Q (length numbers) i r \<Longrightarrow>
   loopInv C Q (length numbers) (max i (length numbers)) (checkLoop net scheds numbers userId i r)"
proof (induction net scheds numbers userId i r rule: checkLoop.induct)
  case (1 net scheds numbers userId i r)
  note si = "1.prems"(1) and inv = "1.prems"(2)
  show ?case
  proof (cases "i < length numbers")
    case False
    then show ?thesis using inv by (subst checkLoop.simps) (simp add: max_def)
  next
    case True
    define batch where "batch = take maxConcurrent (drop i numbers)"
    define r1 where "r1 = processBatch net userId (length numbers) batch i
                 (case scheds of [] \<Rightarrow> ([], 0) | sched # rest \<Rightarrow> sched) r"
    define r2 where "r2 = (if i + maxConcurrent < length numbers then r1\<lparr>svc := sleep 1000 (svc r1)\<rparr> else r1)"
    have i3: "loopInv C Q (length numbers) (i + maxConcurrent) r2"
      using si inv True batch_def r1_def r2_def by (rule loop_body_loopInv)
    have "loopInv C Q (length numbers) (max (i + maxConcurrent) (length numbers))
            (checkLoop net (tl scheds) numbers userId (i + maxConcurrent) r2)"
      using True batch_def r1_def r2_def si i3 by (rule "1.IH")
    then have "loopInv C Q (length numbers) (max i (length numbers))
            (checkLoop net (tl scheds) numbers userId (i + maxConcurrent) r2)"
      by (rule loopInv_index) auto
    moreover have "checkLoop net scheds numbers userId i r
        = checkLoop net (tl scheds) numbers userId (i + maxConcurrent) r2"
      using True by (subst checkLoop.simps) (simp add: Let_def batch_def r1_def r2_def)
    ultimately show ?thesis by simp
  qed
qed

lemma checkNumbers_inv:
  assumes si: "stepInv userId numbers C Q" and c: "C (numberCache st)"
    and ready: "sessionReady userId st" and ne: "numbers \<noteq> []" and le: "length numbers \<le> 5000"
  shows "\<exists>rs st'. checkNumbers net scheds numbers userId st = (Inr rs, st')
           \<and> length rs = length numbers \<and> C (numberCache st')
           \<and> (\<forall>j<length numbers. \<exists>res. rs ! j = Some res \<and> Q j res)"
proof -
  let ?start = "\<lparr>svc = st, results = replicate (length numbers) None, completed = 0, workers = []\<rparr>"
  let ?r = "checkLoop net scheds numbers userId 0 ?start"
  have "loopInv C Q (length numbers) 0 ?start"
    using c by (simp add: loopInv_def slotsHold_def)
  then have "loopInv C Q (length numbers) (max 0 (length numbers)) ?r"
    using si by (rule checkLoop_loopInv [rotated])
  then have "length (results ?r) = length numbers \<and> C (numberCache (svc ?r))
      \<and> (\<forall>j<length numbers. \<exists>res. results ?r ! j = Some res \<and> Q j res)"
    by (auto simp: loopInv_def slotsHold_def)
  then show ?thesis
    using ready ne le by (simp add: checkNumbers_def Let_def)
qed

lemmas example_defs = noFaults_def readySession_def pairedService_def constructor_def
  initializingSession_def initializingService_def startedService_def cachedEntry_def cachedService_def

lemmas session_defs = initializeUserSession_def initializeUserSession_begin_def
  initializeUserSession_connect_def resetStuck_def endClient_def emitTo_def ensureDir_def
  initFailed_def restart_def sleep_def

lemma init_noop:
  assumes "userSessions st userId = Some us" and "isInitializing us" and "now - initStartTime us \<le> 60000"
  shows "initializeUserSession fl now userId sid st = st"
  using assms by (simp add: initializeUserSession_def initializeUserSession_begin_def resetStuck_def Let_def)

lemma init_stuck:
  assumes "userSessions st userId = Some us" and "isInitializing us" and "60000 < now - initStartTime us"
    and "initStartTime us \<noteq> 0" and "\<not> isReady us" and "endFault fl = None" and "initFault fl = None"
    and "st' = initializeUserSession fl now userId sid st"
  shows "ended st' = ended st @ (case clients st userId of None \<Rightarrow> [] | Some c \<Rightarrow> [c])
       \<and> made st' = made st + 1
       \<and> clients st' userId = Some \<lparr>sockId = made st, authDir = ''user-'' @ userId,
                                     hadCreds = (disk st (''user-'' @ userId) = Some True)\<rparr>
       \<and> userSessions st' userId = Some \<lparr>isReady = False, isInitializing = True, socketId = sid,
                                           manuallyDisconnected = False, initStartTime = now\<rparr>"
  using assms by (auto simp: session_defs Let_def split: option.splits)

lemma init_once:
  assumes "initializeUserSession_begin fl1 t1 userId sid1 st0 = Inr st1" and "t2 - t1 \<le> 60000"
    and "initFault fl1 = None"
  shows "initializeUserSession fl2 t2 userId sid2 st1 = st1
       \<and> initializeUserSession fl2 t2 userId sid2 (initializeUserSession_connect fl1 userId sid1 st1)
           = initializeUserSession_connect fl1 userId sid1 st1
       \<and> made (initializeUserSession_connect fl1 userId sid1 st1) = made st0 + 1"
proof -
  from assms(1) obtain s where us: "userSessions st1 userId = Some s" and i: "isInitializing s"
    and t: "initStartTime s = t1" and m: "made st1 = made st0"
    by (auto simp: initializeUserSession_begin_def resetStuck_def emitTo_def endClient_def Let_def
        split: option.splits if_splits)
  have a: "initializeUserSession fl2 t2 userId sid2 st1 = st1"
    using us i assms(2) t by (simp add: init_noop)
  let ?c = "initializeUserSession_connect fl1 userId sid1 st1"
  have us': "userSessions ?c userId = Some s" and m': "made ?c = made st0 + 1"
    using us m assms(3) by (auto simp: initializeUserSession_connect_def ensureDir_def Let_def split: option.splits)
  have b: "initializeUserSession fl2 t2 userId sid2 ?c = ?c"
    using us' i assms(2) t by (simp add: init_noop)
  show ?thesis using a b m' by simp
qed


lemma stepInv_avoids:
  assumes "x \<noteq> StatusValid"
  shows "stepInv userId numbers (\<lambda>c. x \<notin> set (cachedStatuses c)) (\<lambda>j res. True)"
  unfolding stepInv_def using assms by (simp add: checkNumber_step_avoids)

lemma stepInv_wellFormed:
  "stepInv userId numbers (\<lambda>c. StatusInvalid \<notin> set (cachedStatuses c)) (\<lambda>j res. wellFormed res)"
  unfolding stepInv_def
proof (intro conjI allI impI)
  fix rep now j t st res st'
  assume "StatusInvalid \<notin> set (cachedStatuses (numberCache st)) \<and> j < length numbers
    \<and> checkNumber_step rep now (numbers ! j) userId t st = (Resolved res, st') \<and> (\<forall>r0. t \<noteq> Resolved r0)"
  then show "wellFormed res"
    using checkNumber_step_wellFormed by blast
qed (simp_all add: errorResult_def wellFormed_def checkNumber_step_avoids)

lemma constructor_cache_empty: "cachedStatuses (numberCache (constructor d)) = []"
  by (simp add: constructor_def cachedStatuses_def)

lemma checkNumbers_rejects:
  "\<not> (sessionReady userId st \<and> numbers \<noteq> [] \<and> length numbers \<le> 5000) \<Longrightarrow>
   snd (checkNumbers net scheds numbers userId st) = st \<and> (\<exists>msg. fst (checkNumbers net scheds numbers userId st) = Inl msg)"
  by (auto simp: checkNumbers_def)

text \<open>No call of \<open>checkNumbers\<close> brings a status other than \<open>valid\<close> into the cache.\<close>

lemma checkNumbers_cache_avoids:
  assumes "x \<noteq> StatusValid" and c: "x \<notin> set (cachedStatuses (numberCache st))"
  shows "x \<notin> set (cachedStatuses (numberCache (snd (checkNumbers net scheds numbers userId st))))"
proof (cases "sessionReady userId st \<and> numbers \<noteq> [] \<and> length numbers \<le> 5000")
  case False
  then show ?thesis using c checkNumbers_rejects [of userId st numbers net scheds] by simp
next
  case True
  have si: "stepInv userId numbers (\<lambda>c. x \<notin> set (cachedStatuses c)) (\<lambda>j res. True)"
    using assms(1) by (rule stepInv_avoids)
  from checkNumbers_inv [OF si c, of net scheds] True show ?thesis by force
qed

text \<open>The gate and the queries.\<close>

lemma getCachedResult_frame:
  "queried (snd (getCachedResult now k st)) = queried st
   \<and> lastCheckTime (snd (getCachedResult now k st)) = lastCheckTime st
   \<and> slept (snd (getCachedResult now k st)) = slept st"
  by (simp add: getCachedResult_def split: option.splits)

lemma setCachedResult_frame:
  "queried (setCachedResult now k r st) = queried st
   \<and> lastCheckTime (setCachedResult now k r st) = lastCheckTime st"
  by (simp add: setCachedResult_def cleanupCache_def Let_def)

lemma checkNumber_reply_frame:
  "queried (snd (checkNumber_reply rep now number v st)) = queried st
   \<and> lastCheckTime (snd (checkNumber_reply rep now number v st)) = lastCheckTime st"
  by (cases rep) (simp_all add: checkNumber_reply_def Let_def setCachedResult_frame)

lemma checkNumber_reply_settles:
  "\<exists>res. fst (checkNumber_reply rep now number v st) = Resolved res"
  by (cases rep) (simp_all add: checkNumber_reply_def Let_def)

text \<open>What the first piece of a call does to the gate.\<close>

lemma checkNumber_start_gate:
  assumes "checkNumber_start now number userId st = (t1, st1)"
  shows "queried st1 = queried st
    \<and> (((\<exists>res. t1 = Resolved res) \<or> (\<exists>msg. t1 = Rejected msg))
          \<and> lastCheckTime st1 = lastCheckTime st \<and> slept st1 = slept st
        \<or> (\<exists>v. t1 = Sleeping v) \<and> lastCheckTime st1 = lastCheckTime st
          \<and> now < lastCheckTime st + checkInterval
          \<and> slept st1 = slept st @ [lastCheckTime st + checkInterval - now]
        \<or> (\<exists>v. t1 = Paced v) \<and> lastCheckTime st1 = now
          \<and> lastCheckTime st + checkInterval \<le> now \<and> slept st1 = slept st)"
proof -
  let ?g = "getCachedResult now (formattedNumber (validateNumber number)) st"
  have f: "queried (snd ?g) = queried st" "lastCheckTime (snd ?g) = lastCheckTime st"
    "slept (snd ?g) = slept st"
    using getCachedResult_frame [of now "formattedNumber (validateNumber number)" st] by simp_all
  have g: "?g = (a, b) \<Longrightarrow> queried b = queried st \<and> lastCheckTime b = lastCheckTime st \<and> slept b = slept st" for a b
    using f by simp
  show ?thesis
    using assms
    by (auto simp: checkNumber_start_def Let_def waitForRateLimit_enter_def sleep_def
        split: if_splits prod.splits option.splits dest!: g)
qed

lemma checkNumber_gate:
  "queried (snd (checkNumber rep now wake answered number userId st)) = queried st
     \<and> lastCheckTime (snd (checkNumber rep now wake answered number userId st)) = lastCheckTime st
   \<or> (\<exists>jid sent.
         queried (snd (checkNumber rep now wake answered number userId st))
           = queried st @ [(userId, jid, sent)]
         \<and> lastCheckTime (snd (checkNumber rep now wake answered number userId st)) = sent
         \<and> (sent = now \<and> lastCheckTime st + checkInterval \<le> now
            \<or> sent = wake \<and> now < lastCheckTime st + checkInterval))"
proof -
  obtain t1 st1 where s: "checkNumber_start now number userId st = (t1, st1)"
    by (cases "checkNumber_start now number userId st")
  note g = checkNumber_start_gate [OF s]
  from g consider
      (settled) "(\<exists>res. t1 = Resolved res) \<or> (\<exists>msg. t1 = Rejected msg)"
        "lastCheckTime st1 = lastCheckTime st"
    | (sleeping) v where "t1 = Sleeping v" "lastCheckTime st1 = lastCheckTime st"
        "now < lastCheckTime st + checkInterval"
    | (paced) v where "t1 = Paced v" "lastCheckTime st1 = now"
        "lastCheckTime st + checkInterval \<le> now"
    by blast
  then show ?thesis
  proof cases
    case settled
    then show ?thesis
      using g s by (auto simp: checkNumber_def checkNumber_step_def)
  next
    case sleeping
    obtain t4 st4 where r: "checkNumber_reply rep answered number v
        (st1\<lparr>lastCheckTime := wake, queried := queried st1 @ [(userId, whatsappId v, wake)]\<rparr>) = (t4, st4)"
      by (cases "checkNumber_reply rep answered number v
        (st1\<lparr>lastCheckTime := wake, queried := queried st1 @ [(userId, whatsappId v, wake)]\<rparr>)")
    have c: "checkNumber rep now wake answered number userId st = (t4, st4)"
      using s sleeping(1) r
      by (simp add: checkNumber_def checkNumber_step_def waitForRateLimit_resume_def)
    have "queried st4 = queried st @ [(userId, whatsappId v, wake)]" and "lastCheckTime st4 = wake"
      using checkNumber_reply_frame [of rep answered number v
          "st1\<lparr>lastCheckTime := wake, queried := queried st1 @ [(userId, whatsappId v, wake)]\<rparr>"] r g
      by simp_all
    then show ?thesis using c sleeping(3) by simp
  next
    case paced
    obtain t4 st4 where r: "checkNumber_reply rep answered number v
        (st1\<lparr>queried := queried st1 @ [(userId, whatsappId v, now)]\<rparr>) = (t4, st4)"
      by (cases "checkNumber_reply rep answered number v
        (st1\<lparr>queried := queried st1 @ [(userId, whatsappId v, now)]\<rparr>)")
    have c: "checkNumber rep now wake answered number userId st = (t4, st4)"
      using s paced(1) r by (simp add: checkNumber_def checkNumber_step_def)
    have "queried st4 = queried st @ [(userId, whatsappId v, now)]" and "lastCheckTime st4 = now"
      using checkNumber_reply_frame [of rep answered number v
          "st1\<lparr>queried := queried st1 @ [(userId, whatsappId v, now)]\<rparr>"] r g paced(2)
      by simp_all
    then show ?thesis using c paced(3) by simp
  qed
qed

lemma checkNumber_step_sends:
  "queried (snd (checkNumber_step rep now number userId t st)) =
     (case t of Paced v \<Rightarrow> queried st @ [(userId, whatsappId v, now)] | _ \<Rightarrow> queried st)"
proof (cases t)
  case Pending
  obtain t1 st1 where s: "checkNumber_start now number userId st = (t1, st1)"
    by (cases "checkNumber_start now number userId st")
  from checkNumber_start_gate [OF s] s Pending show ?thesis
    by (simp add: checkNumber_step_def)
next
  case (Querying v)
  then show ?thesis
    using checkNumber_reply_frame [of rep now number v st] by (simp add: checkNumber_step_def)
qed (simp_all add: checkNumber_step_def waitForRateLimit_resume_def)

lemma checkNumber_step_paced:
  assumes "fst (checkNumber_step rep now number userId t st) = Paced v"
  shows "t = Sleeping v \<or> t = Pending \<and> lastCheckTime st + checkInterval \<le> now"
proof (cases t)
  case Pending
  obtain t1 st1 where s: "checkNumber_start now number userId st = (t1, st1)"
    by (cases "checkNumber_start now number userId st")
  from checkNumber_start_gate [OF s] s Pending assms show ?thesis
    by (auto simp: checkNumber_step_def)
next
  case (Querying w)
  then show ?thesis
    using assms checkNumber_reply_settles [of rep now number w st] by (auto simp: checkNumber_step_def)
qed (use assms in \<open>simp_all add: checkNumber_step_def\<close>)

lemma checkNumber_step_sleeping:
  assumes "fst (checkNumber_step rep now number userId Pending st) = Sleeping v"
  shows "slept (snd (checkNumber_step rep now number userId Pending st))
           = slept st @ [lastCheckTime st + checkInterval - now]"
proof -
  obtain t1 st1 where s: "checkNumber_start now number userId st = (t1, st1)"
    by (cases "checkNumber_start now number userId st")
  from checkNumber_start_gate [OF s] s assms show ?thesis
    by (auto simp: checkNumber_step_def)
qed

section \<open>The claims\<close>

text \<open>
  C1 (as the code has it). \<open>validateNumber\<close> tries the generic international rule first;
  it accepts \<open>03211234567\<close>, rewrites it to \<open>+923211234567\<close> and tags it
  \<open>International\<close>. The prefix table, where \<open>321\<close> is \<open>Ufone\<close>, is not consulted.
\<close>

theorem validateNumber_local_example:
  "validateNumber ''03211234567'' =
     \<lparr>originalNumber = ''03211234567'', formattedNumber = Some ''+923211234567'',
      error = None, network = Some ''International'', isValid = True\<rparr>
   \<and> map_of pakistaniNetworks ''321'' = Some ''Ufone''"
  by (simp add: validator_defs pakistaniNetworks_def)

text \<open>
  C1 (as the specification states it) fails: the tag of \<open>03211234567\<close> is not the table's
  entry for \<open>321\<close>.
\<close>

theorem validateNumber_carrier_counterexample:
  "\<not> (formattedNumber (validateNumber ''03211234567'') = Some ''+923211234567''
      \<and> network (validateNumber ''03211234567'') = map_of pakistaniNetworks ''321''
      \<and> network (validateNumber ''03211234567'') \<noteq> Some ''International'')"
  by (simp add: validator_defs pakistaniNetworks_def)



text \<open>
  C3 (the code at a failing input). \<open>user_1\<close> is paired: its credentials are in
  \<open>user-user_1\<close>, the directory \<open>initializeUserSession\<close> loads them from. \<open>restart\<close> ends
  the socket, removes \<open>session-user_1\<close>, sleeps 2000 ms and initializes again: the
  credentials are still on disk and the new socket is built on them.
\<close>

theorem restart_keeps_credentials:
  "disk (restart noFaults 20000 ''user_1'' ''socket-a'' pairedService) ''user-user_1'' = Some True
   \<and> clients (restart noFaults 20000 ''user_1'' ''socket-a'' pairedService) ''user_1''
       = Some \<lparr>sockId = 2, authDir = ''user-user_1'', hadCreds = True\<rparr>
   \<and> ended (restart noFaults 20000 ''user_1'' ''socket-a'' pairedService)
       = [\<lparr>sockId = 0, authDir = ''user-user_1'', hadCreds = False\<rparr>]
   \<and> slept (restart noFaults 20000 ''user_1'' ''socket-a'' pairedService) = [2000]"
  by (simp add: session_defs example_defs Let_def)

text \<open>
  C4. \<open>setCachedResult\<close> leaves the service as it is when the result has status
  \<open>error\<close>, and a cache without \<open>error\<close> entries has none after \<open>checkNumbers\<close>,
  whatever the call does.
\<close>

theorem error_results_never_cached:
  "(status r = StatusError \<longrightarrow> setCachedResult now cacheKey r st = st)
   \<and> (StatusError \<notin> set (cachedStatuses (numberCache st)) \<longrightarrow>
        StatusError \<notin> set (cachedStatuses (numberCache
          (snd (checkNumbers net scheds numbers userId st)))))"
proof (intro conjI impI)
  show "setCachedResult now cacheKey r st = st" if "status r = StatusError"
    using that by (simp add: setCachedResult_def)
  assume c: "StatusError \<notin> set (cachedStatuses (numberCache st))"
  show "StatusError \<notin> set (cachedStatuses (numberCache (snd (checkNumbers net scheds numbers userId st))))"
    by (rule checkNumbers_cache_avoids) (use c in simp_all)
qed

theorem error_results_never_cached_witness:
  "status (errorResult ''+14155550123'' ''timed out'') = StatusError
   \<and> setCachedResult 100400 (Some ''+14155550123'') (errorResult ''+14155550123'' ''timed out'')
        pairedService = pairedService
   \<and> StatusError \<notin> set (cachedStatuses (numberCache pairedService))
   \<and> StatusError \<notin> set (cachedStatuses (numberCache
        (snd (checkNumbers exampleNet [reverseSchedule] exampleNumbers ''user_1'' pairedService))))
   \<and> map (map_option status)
        (projr (fst (checkNumbers exampleNet [reverseSchedule] exampleNumbers ''user_1'' pairedService)))
       = [Some StatusValid, Some StatusInvalid, Some StatusError]
   \<and> map fst (numberCache
        (snd (checkNumbers exampleNet [reverseSchedule] exampleNumbers ''user_1'' pairedService)))
       = [Some ''+923001234567'']"
proof -
  have a: "status (errorResult ''+14155550123'' ''timed out'') = StatusError"
    by (simp add: errorResult_def)
  have b: "StatusError \<notin> set (cachedStatuses (numberCache pairedService))"
    by (simp add: example_defs cachedStatuses_def)
  have e: "map (map_option status)
        (projr (fst (checkNumbers exampleNet [reverseSchedule] exampleNumbers ''user_1'' pairedService)))
       = [Some StatusValid, Some StatusInvalid, Some StatusError]"
    by code_simp
  have k: "map fst (numberCache
        (snd (checkNumbers exampleNet [reverseSchedule] exampleNumbers ''user_1'' pairedService)))
       = [Some ''+923001234567'']"
    by code_simp
  from error_results_never_cached [of "errorResult ''+14155550123'' ''timed out''" 100400
      "Some ''+14155550123''" pairedService exampleNet "[reverseSchedule]" exampleNumbers "''user_1''"]
    a b e k
  show ?thesis by blast
qed

text \<open>
  C5. While the session of a user is initializing: a call of \<open>initializeUserSession\<close> no
  more than 60000 ms after \<open>initStartTime\<close> changes nothing. So when a first call has
  registered the session at \<open>t1\<close> (it stands at its first \<open>await\<close>, in \<open>st1\<close>), a
  second call at \<open>t2 \<le> t1 + 60000\<close> changes nothing whether it runs before or after the
  first call builds its socket, and one socket is built in all. A call more than 60000 ms
  after a (non-zero) \<open>initStartTime\<close>, nothing failing, ends and removes the stale socket,
  registers the session anew with the current time and builds a new socket.
\<close>

theorem initializeUserSession_while_initializing:
  "(userSessions st userId = Some us \<and> isInitializing us \<and> now - initStartTime us \<le> 60000 \<longrightarrow>
      initializeUserSession fl now userId sid st = st)
   \<and> (initializeUserSession_begin fl1 t1 userId sid1 st0 = Inr st1 \<and> t2 - t1 \<le> 60000
        \<and> initFault fl1 = None \<longrightarrow>
      initializeUserSession fl2 t2 userId sid2 st1 = st1
      \<and> initializeUserSession fl2 t2 userId sid2 (initializeUserSession_connect fl1 userId sid1 st1)
          = initializeUserSession_connect fl1 userId sid1 st1
      \<and> made (initializeUserSession_connect fl1 userId sid1 st1) = made st0 + 1)
   \<and> (userSessions st userId = Some us \<and> isInitializing us \<and> 60000 < now - initStartTime us
        \<and> initStartTime us \<noteq> 0 \<and> \<not> isReady us \<and> endFault fl = None \<and> initFault fl = None \<longrightarrow>
      ended (initializeUserSession fl now userId sid st)
        = ended st @ (case clients st userId of None \<Rightarrow> [] | Some c \<Rightarrow> [c])
      \<and> made (initializeUserSession fl now userId sid st) = made st + 1
      \<and> clients (initializeUserSession fl now userId sid st) userId
          = Some \<lparr>sockId = made st, authDir = ''user-'' @ userId,
                  hadCreds = (disk st (''user-'' @ userId) = Some True)\<rparr>
      \<and> userSessions (initializeUserSession fl now userId sid st) userId
          = Some \<lparr>isReady = False, isInitializing = True, socketId = sid,
                  manuallyDisconnected = False, initStartTime = now\<rparr>)"
proof (intro conjI impI)
  assume "userSessions st userId = Some us \<and> isInitializing us \<and> now - initStartTime us \<le> 60000"
  then show "initializeUserSession fl now userId sid st = st"
    by (simp add: init_noop)
next
  assume a: "initializeUserSession_begin fl1 t1 userId sid1 st0 = Inr st1 \<and> t2 - t1 \<le> 60000
    \<and> initFault fl1 = None"
  then have b: "initializeUserSession_begin fl1 t1 userId sid1 st0 = Inr st1" and c: "t2 - t1 \<le> 60000"
    and d: "initFault fl1 = None"
    by simp_all
  from init_once [OF b c d, of fl2 sid2]
  show "initializeUserSession fl2 t2 userId sid2 st1 = st1"
    and "initializeUserSession fl2 t2 userId sid2 (initializeUserSession_connect fl1 userId sid1 st1)
          = initializeUserSession_connect fl1 userId sid1 st1"
    and "made (initializeUserSession_connect fl1 userId sid1 st1) = made st0 + 1"
    by simp_all
next
  assume a: "userSessions st userId = Some us \<and> isInitializing us \<and> 60000 < now - initStartTime us
    \<and> initStartTime us \<noteq> 0 \<and> \<not> isReady us \<and> endFault fl = None \<and> initFault fl = None"
  have s: "ended (initializeUserSession fl now userId sid st)
        = ended st @ (case clients st userId of None \<Rightarrow> [] | Some c \<Rightarrow> [c])
      \<and> made (initializeUserSession fl now userId sid st) = made st + 1
      \<and> clients (initializeUserSession fl now userId sid st) userId
          = Some \<lparr>sockId = made st, authDir = ''user-'' @ userId,
                  hadCreds = (disk st (''user-'' @ userId) = Some True)\<rparr>
      \<and> userSessions (initializeUserSession fl now userId sid st) userId
          = Some \<lparr>isReady = False, isInitializing = True, socketId = sid,
                  manuallyDisconnected = False, initStartTime = now\<rparr>"
    by (rule init_stuck [where us = us]) (use a in simp_all)
  from s show "ended (initializeUserSession fl now userId sid st)
        = ended st @ (case clients st userId of None \<Rightarrow> [] | Some c \<Rightarrow> [c])"
    and "made (initializeUserSession fl now userId sid st) = made st + 1"
    and "clients (initializeUserSession fl now userId sid st) userId
          = Some \<lparr>sockId = made st, authDir = ''user-'' @ userId,
                  hadCreds = (disk st (''user-'' @ userId) = Some True)\<rparr>"
    and "userSessions (initializeUserSession fl now userId sid st) userId
          = Some \<lparr>isReady = False, isInitializing = True, socketId = sid,
                  manuallyDisconnected = False, initStartTime = now\<rparr>"
    by simp_all
qed

theorem initializeUserSession_while_initializing_witness:
  "userSessions initializingService ''user_1'' = Some initializingSession
   \<and> isInitializing initializingSession \<and> \<not> isReady initializingSession
   \<and> initStartTime initializingSession = 5000
   \<and> initializeUserSession noFaults 30000 ''user_1'' ''socket-b'' initializingService
       = initializingService
   \<and> initializeUserSession_begin noFaults 10000 ''user_3'' ''socket-c'' pairedService
       = Inr startedService
   \<and> initializeUserSession noFaults 10500 ''user_3'' ''socket-d'' startedService = startedService
   \<and> initializeUserSession noFaults 10500 ''user_3'' ''socket-d''
        (initializeUserSession_connect noFaults ''user_3'' ''socket-c'' startedService)
       = initializeUserSession_connect noFaults ''user_3'' ''socket-c'' startedService
   \<and> made (initializeUserSession_connect noFaults ''user_3'' ''socket-c'' startedService) = 3
   \<and> ended (initializeUserSession noFaults 70000 ''user_1'' ''socket-b'' initializingService)
       = [\<lparr>sockId = 0, authDir = ''user-user_1'', hadCreds = False\<rparr>]
   \<and> made (initializeUserSession noFaults 70000 ''user_1'' ''socket-b'' initializingService) = 3
   \<and> clients (initializeUserSession noFaults 70000 ''user_1'' ''socket-b'' initializingService)
        ''user_1'' = Some \<lparr>sockId = 2, authDir = ''user-user_1'', hadCreds = True\<rparr>
   \<and> userSessions (initializeUserSession noFaults 70000 ''user_1'' ''socket-b'' initializingService)
        ''user_1'' = Some \<lparr>isReady = False, isInitializing = True, socketId = ''socket-b'',
                            manuallyDisconnected = False, initStartTime = 70000\<rparr>"
proof -
  have u: "userSessions initializingService ''user_1'' = Some initializingSession"
    by (simp add: initializingService_def)
  have i: "isInitializing initializingSession" and n: "\<not> isReady initializingSession"
    and t: "initStartTime initializingSession = 5000"
    by (simp_all add: initializingSession_def)
  have f: "endFault noFaults = None" and g: "initFault noFaults = None"
    by (simp_all add: noFaults_def)
  have b: "initializeUserSession_begin noFaults 10000 ''user_3'' ''socket-c'' pairedService
       = Inr startedService"
    by (simp add: initializeUserSession_begin_def resetStuck_def example_defs emitTo_def)
  have c: "clients initializingService ''user_1''
        = Some \<lparr>sockId = 0, authDir = ''user-user_1'', hadCreds = False\<rparr>"
    and d: "disk initializingService ''user-user_1'' = Some True"
    and m: "made initializingService = 2" and m': "made pairedService = 2"
    and e: "ended initializingService = []"
    by (simp_all add: example_defs)
  note w1 = initializeUserSession_while_initializing [where st = initializingService
      and userId = "''user_1''" and us = initializingSession and now = 30000 and fl = noFaults
      and sid = "''socket-b''" and ?fl1.0 = noFaults and ?t1.0 = 10000 and ?sid1.0 = "''socket-c''"
      and ?st0.0 = pairedService and ?st1.0 = startedService and ?t2.0 = 10500
      and ?fl2.0 = noFaults and ?sid2.0 = "''socket-d''"]
  note w2 = initializeUserSession_while_initializing [where st = initializingService
      and userId = "''user_1''" and us = initializingSession and now = 70000 and fl = noFaults
      and sid = "''socket-b''"]
  note w3 = initializeUserSession_while_initializing [where userId = "''user_3''"
      and ?fl1.0 = noFaults and ?t1.0 = 10000 and ?sid1.0 = "''socket-c''"
      and ?st0.0 = pairedService and ?st1.0 = startedService and ?t2.0 = 10500
      and ?fl2.0 = noFaults and ?sid2.0 = "''socket-d''"]
  have p1: "initializeUserSession noFaults 30000 ''user_1'' ''socket-b'' initializingService
       = initializingService"
    using w1 u i t by simp
  have p2: "initializeUserSession noFaults 10500 ''user_3'' ''socket-d'' startedService = startedService
     \<and> initializeUserSession noFaults 10500 ''user_3'' ''socket-d''
        (initializeUserSession_connect noFaults ''user_3'' ''socket-c'' startedService)
       = initializeUserSession_connect noFaults ''user_3'' ''socket-c'' startedService
     \<and> made (initializeUserSession_connect noFaults ''user_3'' ''socket-c'' startedService) = 3"
    using w3 b g m' by simp
  have p3: "ended (initializeUserSession noFaults 70000 ''user_1'' ''socket-b'' initializingService)
       = [\<lparr>sockId = 0, authDir = ''user-user_1'', hadCreds = False\<rparr>]
     \<and> made (initializeUserSession noFaults 70000 ''user_1'' ''socket-b'' initializingService) = 3
     \<and> clients (initializeUserSession noFaults 70000 ''user_1'' ''socket-b'' initializingService)
        ''user_1'' = Some \<lparr>sockId = 2, authDir = ''user-user_1'', hadCreds = True\<rparr>
     \<and> userSessions (initializeUserSession noFaults 70000 ''user_1'' ''socket-b'' initializingService)
        ''user_1'' = Some \<lparr>isReady = False, isInitializing = True, socketId = ''socket-b'',
                            manuallyDisconnected = False, initStartTime = 70000\<rparr>"
    using w2 u i n t f g c d m e by simp
  from u i n t p1 b p2 p3 show ?thesis by blast
qed

text \<open>
  C6 (as the specification states it) fails. Three cache misses of \<open>user_1\<close> in one
  batch: the second and the third query are both sent at 102000. And the gate is the
  service's, not the session's: after a query of \<open>user_1\<close> at 100000, a query of
  \<open>user_2\<close> at 100500 has to sleep 1500 ms.
\<close>

theorem pacing_gate_counterexample:
  "queried (snd (checkNumbers (\<lambda>i. Entry (JBool True)) [burstSchedule] burstNumbers ''user_1''
      pairedService)) =
     [(''user_1'', ''923001234567@s.whatsapp.net'', 100000),
      (''user_1'', ''923001234568@s.whatsapp.net'', 102000),
      (''user_1'', ''923001234569@s.whatsapp.net'', 102000)]
   \<and> fst (checkNumber_step NoEntry 100500 ''03001234568'' ''user_2'' Pending
          (snd (checkNumber_step NoEntry 100000 ''03001234567'' ''user_1'' Pending pairedService)))
       = Sleeping (validateNumber ''03001234568'')
   \<and> slept (snd (checkNumber_step NoEntry 100500 ''03001234568'' ''user_2'' Pending
          (snd (checkNumber_step NoEntry 100000 ''03001234567'' ''user_1'' Pending pairedService))))
       = [1500]"
  by code_simp

text \<open>
  C6 (amended). The service has one pacing gate, \<open>lastCheckTime\<close> with
  \<open>checkInterval = 2000\<close>, shared by all sessions. Whatever runs in between: a query is
  sent only by a \<open>checkNumber\<close> call that has passed the gate; a call passes at once
  only when it finds at least 2000 ms elapsed since the \<open>lastCheckTime\<close> it reads on
  entry, and otherwise sleeps until that \<open>lastCheckTime\<close> plus 2000 ms, so that, its
  sleep not ending early and the clock not running back, its query is sent no earlier
  than 2000 ms after the \<open>lastCheckTime\<close> it read. And when no query sent so far is
  later than \<open>lastCheckTime\<close> (so it is while calls run one at a time), a call that runs
  alone sends its query, if any, at least 2000 ms after every earlier query of any
  session, and leaves the service in such a state again.
\<close>

theorem pacing_gate_sequential:
  "(\<forall>t. queried (snd (checkNumber_step rep now number userId t st)) =
       (case t of Paced v \<Rightarrow> queried st @ [(userId, whatsappId v, now)] | _ \<Rightarrow> queried st))
   \<and> (\<forall>t v. fst (checkNumber_step rep now number userId t st) = Paced v \<longrightarrow>
         t = Sleeping v \<or> t = Pending \<and> lastCheckTime st + checkInterval \<le> now)
   \<and> (\<forall>v. fst (checkNumber_step rep now number userId Pending st) = Sleeping v \<longrightarrow>
         (\<exists>waitTime. slept (snd (checkNumber_step rep now number userId Pending st))
                        = slept st @ [waitTime]
            \<and> (\<forall>wake sent rep2 st2 rep3 st3. now + waitTime \<le> wake \<and> wake \<le> sent \<longrightarrow>
                  fst (checkNumber_step rep2 wake number userId (Sleeping v) st2) = Paced v
                  \<and> queried (snd (checkNumber_step rep3 sent number userId (Paced v) st3))
                      = queried st3 @ [(userId, whatsappId v, sent)]
                  \<and> lastCheckTime st + checkInterval \<le> sent)))
   \<and> ((\<forall>q\<in>set (queried st). snd (snd q) \<le> lastCheckTime st)
        \<and> (now < lastCheckTime st + checkInterval \<longrightarrow> lastCheckTime st + checkInterval \<le> wake) \<longrightarrow>
      (\<forall>q\<in>set (queried (snd (checkNumber rep now wake answered number userId st))).
          snd (snd q) \<le> lastCheckTime (snd (checkNumber rep now wake answered number userId st)))
      \<and> (queried (snd (checkNumber rep now wake answered number userId st)) = queried st
          \<or> (\<exists>jid sent.
                queried (snd (checkNumber rep now wake answered number userId st))
                  = queried st @ [(userId, jid, sent)]
                \<and> lastCheckTime st + checkInterval \<le> sent
                \<and> (\<forall>q\<in>set (queried st). snd (snd q) + checkInterval \<le> sent))))"
proof (intro conjI allI impI)
  fix t
  show "queried (snd (checkNumber_step rep now number userId t st)) =
       (case t of Paced v \<Rightarrow> queried st @ [(userId, whatsappId v, now)] | _ \<Rightarrow> queried st)"
    by (rule checkNumber_step_sends)
next
  fix t v
  assume "fst (checkNumber_step rep now number userId t st) = Paced v"
  then show "t = Sleeping v \<or> t = Pending \<and> lastCheckTime st + checkInterval \<le> now"
    by (rule checkNumber_step_paced)
next
  fix v
  assume "fst (checkNumber_step rep now number userId Pending st) = Sleeping v"
  then have s: "slept (snd (checkNumber_step rep now number userId Pending st))
           = slept st @ [lastCheckTime st + checkInterval - now]"
    by (rule checkNumber_step_sleeping)
  have "fst (checkNumber_step rep2 wake number userId (Sleeping v) st2) = Paced v
        \<and> queried (snd (checkNumber_step rep3 sent number userId (Paced v) st3))
            = queried st3 @ [(userId, whatsappId v, sent)]
        \<and> lastCheckTime st + checkInterval \<le> sent"
    if "now + (lastCheckTime st + checkInterval - now) \<le> wake \<and> wake \<le> sent"
    for wake sent rep2 st2 rep3 st3
    using that by (simp add: checkNumber_step_def)
  with s show "\<exists>waitTime. slept (snd (checkNumber_step rep now number userId Pending st))
                        = slept st @ [waitTime]
            \<and> (\<forall>wake sent rep2 st2 rep3 st3. now + waitTime \<le> wake \<and> wake \<le> sent \<longrightarrow>
                  fst (checkNumber_step rep2 wake number userId (Sleeping v) st2) = Paced v
                  \<and> queried (snd (checkNumber_step rep3 sent number userId (Paced v) st3))
                      = queried st3 @ [(userId, whatsappId v, sent)]
                  \<and> lastCheckTime st + checkInterval \<le> sent)"
    by blast
next
  let ?st = "snd (checkNumber rep now wake answered number userId st)"
  assume a: "(\<forall>q\<in>set (queried st). snd (snd q) \<le> lastCheckTime st)
        \<and> (now < lastCheckTime st + checkInterval \<longrightarrow> lastCheckTime st + checkInterval \<le> wake)"
  then have inv: "\<And>q. q \<in> set (queried st) \<Longrightarrow> snd (snd q) \<le> lastCheckTime st"
    and w: "now < lastCheckTime st + checkInterval \<Longrightarrow> lastCheckTime st + checkInterval \<le> wake"
    by auto
  have ci: "0 \<le> checkInterval" by (simp add: checkInterval_def)
  from checkNumber_gate [of rep now wake answered number userId st]
  consider (same) "queried ?st = queried st" "lastCheckTime ?st = lastCheckTime st"
    | (sent) jid sent where "queried ?st = queried st @ [(userId, jid, sent)]"
        "lastCheckTime ?st = sent" "lastCheckTime st + checkInterval \<le> sent"
    using w by auto
  then have "(\<forall>q\<in>set (queried ?st). snd (snd q) \<le> lastCheckTime ?st)
      \<and> (queried ?st = queried st
          \<or> (\<exists>jid sent. queried ?st = queried st @ [(userId, jid, sent)]
                \<and> lastCheckTime st + checkInterval \<le> sent
                \<and> (\<forall>q\<in>set (queried st). snd (snd q) + checkInterval \<le> sent)))"
  proof cases
    case same
    then show ?thesis using inv by simp
  next
    case sent
    have "snd (snd q) + checkInterval \<le> sent" if "q \<in> set (queried st)" for q
      using inv [OF that] sent(3) by simp
    moreover have "snd (snd q) \<le> sent" if "q \<in> set (queried st)" for q
      using inv [OF that] sent(3) ci by simp
    ultimately show ?thesis using sent by auto
  qed
  then show "\<forall>q\<in>set (queried ?st). snd (snd q) \<le> lastCheckTime ?st"
    and "queried ?st = queried st
          \<or> (\<exists>jid sent. queried ?st = queried st @ [(userId, jid, sent)]
                \<and> lastCheckTime st + checkInterval \<le> sent
                \<and> (\<forall>q\<in>set (queried st). snd (snd q) + checkInterval \<le> sent))"
    by blast+
qed

theorem pacing_gate_sequential_witness:
  "map (snd \<circ> snd) (queried pacedService) = [100000] \<and> lastCheckTime pacedService = 100000
   \<and> fst (checkNumber_step NoEntry 100500 ''03001234568'' ''user_2'' Pending pacedService)
       = Sleeping (validateNumber ''03001234568'')
   \<and> slept (snd (checkNumber_step NoEntry 100500 ''03001234568'' ''user_2'' Pending pacedService))
       = [1500]
   \<and> queried (snd (checkNumber NoEntry 100500 102000 102300 ''03001234568'' ''user_2'' pacedService))
       = [(''user_1'', ''923001234567@s.whatsapp.net'', 100000),
          (''user_2'', ''923001234568@s.whatsapp.net'', 102000)]
   \<and> 102000 \<le> lastCheckTime
        (snd (checkNumber NoEntry 100500 102000 102300 ''03001234568'' ''user_2'' pacedService))
   \<and> fst (checkNumber_step NoEntry 102500 ''03001234568'' ''user_2'' Pending pacedService)
       = Paced (validateNumber ''03001234568'')
   \<and> lastCheckTime pacedService + checkInterval \<le> 102500"
proof -
  have q: "queried pacedService = [(''user_1'', ''923001234567@s.whatsapp.net'', 100000)]"
    and l: "lastCheckTime pacedService = 100000"
    by (simp_all add: pacedService_def)
  have i: "\<forall>q\<in>set (queried pacedService). snd (snd q) \<le> lastCheckTime pacedService"
    by (simp add: q l)
  have w: "100500 < lastCheckTime pacedService + checkInterval \<longrightarrow>
      lastCheckTime pacedService + checkInterval \<le> 102000"
    by (simp add: l checkInterval_def)
  have s: "fst (checkNumber_step NoEntry 100500 ''03001234568'' ''user_2'' Pending pacedService)
       = Sleeping (validateNumber ''03001234568'')"
    by code_simp
  have z: "slept (snd (checkNumber_step NoEntry 100500 ''03001234568'' ''user_2'' Pending pacedService))
       = [1500]"
    by code_simp
  have e: "queried (snd (checkNumber NoEntry 100500 102000 102300 ''03001234568'' ''user_2'' pacedService))
       = [(''user_1'', ''923001234567@s.whatsapp.net'', 100000),
          (''user_2'', ''923001234568@s.whatsapp.net'', 102000)]"
    by code_simp
  have p: "fst (checkNumber_step NoEntry 102500 ''03001234568'' ''user_2'' Pending pacedService)
       = Paced (validateNumber ''03001234568'')"
    by code_simp
  note t = pacing_gate_sequential [where st = pacedService and now = 100500 and wake = 102000
      and rep = NoEntry and answered = 102300 and number = "''03001234568''"
      and userId = "''user_2''"]
  from t i w have "\<forall>q\<in>set (queried (snd (checkNumber NoEntry 100500 102000 102300
        ''03001234568'' ''user_2'' pacedService))).
      snd (snd q) \<le> lastCheckTime (snd (checkNumber NoEntry 100500 102000 102300
        ''03001234568'' ''user_2'' pacedService))"
    by blast
  then have a: "102000 \<le> lastCheckTime
        (snd (checkNumber NoEntry 100500 102000 102300 ''03001234568'' ''user_2'' pacedService))"
    by (simp add: e)
  note t2 = pacing_gate_sequential [where st = pacedService and now = 102500
      and rep = NoEntry and number = "''03001234568''" and userId = "''user_2''"]
  from t2 p have b: "lastCheckTime pacedService + checkInterval \<le> 102500"
    by blast
  from q l s z e a p b show ?thesis by simp
qed

text \<open>
  C7. When the entry stored under a key is older than \<open>cacheExpiry\<close> (one hour),
  \<open>getCachedResult\<close> returns a miss and the key is no longer in the cache, the other
  keys being as before; and whenever \<open>getCachedResult\<close> returns a result, it is the
  result of the entry stored under the key, and that entry is younger than \<open>cacheExpiry\<close>.
\<close>

theorem getCachedResult_expired:
  "(\<forall>cached. map_of (numberCache st) cacheKey = Some cached
        \<and> cacheExpiry < now - timestamp cached \<longrightarrow>
       fst (getCachedResult now cacheKey st) = None
       \<and> map_of (numberCache (snd (getCachedResult now cacheKey st)))
           = (map_of (numberCache st))(cacheKey := None))
   \<and> (\<forall>r. fst (getCachedResult now cacheKey st) = Some r \<longrightarrow>
       (\<exists>cached. map_of (numberCache st) cacheKey = Some cached \<and> result cached = r
          \<and> now - timestamp cached < cacheExpiry))"
  by (auto simp: getCachedResult_def delete_conv' split: option.splits)

theorem getCachedResult_expired_witness:
  "map_of (numberCache cachedService) (Some ''+923001234567'') = Some cachedEntry
   \<and> cacheExpiry < 3601001 - timestamp cachedEntry
   \<and> fst (getCachedResult 3601001 (Some ''+923001234567'') cachedService) = None
   \<and> numberCache (snd (getCachedResult 3601001 (Some ''+923001234567'') cachedService)) = []
   \<and> fst (getCachedResult 3600999 (Some ''+923001234567'') cachedService)
       = Some (result cachedEntry)
   \<and> 3600999 - timestamp cachedEntry < cacheExpiry"
proof -
  have a: "map_of (numberCache cachedService) (Some ''+923001234567'') = Some cachedEntry"
    by (simp add: cachedService_def)
  have b: "cacheExpiry < 3601001 - timestamp cachedEntry"
    and c: "3600999 - timestamp cachedEntry < cacheExpiry"
    by (simp_all add: cachedEntry_def cacheExpiry_def)
  have d: "numberCache (snd (getCachedResult 3601001 (Some ''+923001234567'') cachedService)) = []"
    using a b by (simp add: getCachedResult_def) (simp add: cachedService_def AList.delete_eq)
  have h: "fst (getCachedResult 3600999 (Some ''+923001234567'') cachedService)
       = Some (result cachedEntry)"
    using a c by (simp add: getCachedResult_def)
  from getCachedResult_expired [of cachedService "Some ''+923001234567''" 3601001] a b
  have "fst (getCachedResult 3601001 (Some ''+923001234567'') cachedService) = None"
    by blast
  with a b c d h show ?thesis by blast
qed

text \<open>
  C8. When no entry of the cache has status \<open>invalid\<close> (the constructor's cache is
  empty, and \<open>checkNumbers\<close> keeps it so), every result of \<open>checkNumbers\<close> with status
  \<open>invalid\<close> has a null \<open>formattedNumber\<close> and a null \<open>hasWhatsApp\<close>.
\<close>

theorem invalid_result_fields_null:
  assumes "StatusInvalid \<notin> set (cachedStatuses (numberCache st))"
    and "fst (checkNumbers net scheds numbers userId st) = Inr rs"
    and "i < length rs" and "rs ! i = Some res" and "status res = StatusInvalid"
  shows "formattedNumber res = None \<and> hasWhatsApp res = JNull"
proof -
  have ok: "sessionReady userId st \<and> numbers \<noteq> [] \<and> length numbers \<le> 5000"
    using assms(2) checkNumbers_rejects [of userId st numbers net scheds]
    by (cases "sessionReady userId st \<and> numbers \<noteq> [] \<and> length numbers \<le> 5000") auto
  from checkNumbers_inv [OF stepInv_wellFormed assms(1), of userId numbers net scheds] ok assms(2)
  have "length rs = length numbers" and "\<forall>j<length numbers. \<exists>res. rs ! j = Some res \<and> wellFormed res"
    by auto
  then have "wellFormed res" using assms(3,4) by force
  then show ?thesis using assms(5) by (simp add: wellFormed_def)
qed

theorem invalid_result_fields_null_witness:
  "StatusInvalid \<notin> set (cachedStatuses (numberCache pairedService))
   \<and> fst (checkNumbers exampleNet [reverseSchedule] exampleNumbers ''user_1'' pairedService) =
      Inr [Some \<lparr>originalNumber = ''03001234567'', formattedNumber = Some ''+923001234567'',
                  error = None, network = Some ''International'', status = StatusValid,
                  hasWhatsApp = JBool True, fromCache = Some False\<rparr>,
           Some \<lparr>originalNumber = ''0300'', formattedNumber = None,
                  error = Some ''Invalid number format'', network = None, status = StatusInvalid,
                  hasWhatsApp = JNull, fromCache = None\<rparr>,
           Some \<lparr>originalNumber = ''+14155550123'', formattedNumber = Some ''+14155550123'',
                  error = Some ''Check failed: timed out'', network = Some ''International'',
                  status = StatusError, hasWhatsApp = JNull, fromCache = Some False\<rparr>]
   \<and> formattedNumber \<lparr>originalNumber = ''0300'', formattedNumber = None,
                  error = Some ''Invalid number format'', network = None, status = StatusInvalid,
                  hasWhatsApp = JNull, fromCache = None\<rparr> = None
   \<and> hasWhatsApp \<lparr>originalNumber = ''0300'', formattedNumber = None,
                  error = Some ''Invalid number format'', network = None, status = StatusInvalid,
                  hasWhatsApp = JNull, fromCache = None\<rparr> = JNull"
proof -
  have c: "StatusInvalid \<notin> set (cachedStatuses (numberCache pairedService))"
    by (simp add: example_defs cachedStatuses_def)
  have e: "fst (checkNumbers exampleNet [reverseSchedule] exampleNumbers ''user_1'' pairedService) =
      Inr [Some \<lparr>originalNumber = ''03001234567'', formattedNumber = Some ''+923001234567'',
                  error = None, network = Some ''International'', status = StatusValid,
                  hasWhatsApp = JBool True, fromCache = Some False\<rparr>,
           Some \<lparr>originalNumber = ''0300'', formattedNumber = None,
                  error = Some ''Invalid number format'', network = None, status = StatusInvalid,
                  hasWhatsApp = JNull, fromCache = None\<rparr>,
           Some \<lparr>originalNumber = ''+14155550123'', formattedNumber = Some ''+14155550123'',
                  error = Some ''Check failed: timed out'', network = Some ''International'',
                  status = StatusError, hasWhatsApp = JNull, fromCache = Some False\<rparr>]"
    by code_simp
  from invalid_result_fields_null [OF c e, of 1] c e show ?thesis by simp
qed

text \<open>
  C9. \<open>validateNumber\<close> rejects the empty input and every input whose cleaned form has
  fewer than 7 or more than 15 digits, whatever digit pattern a long input embeds.
\<close>

theorem validateNumber_rejects_out_of_range:
  assumes "number = [] \<or> length (cleanNumber number) < 7 \<or> 15 < length (cleanNumber number)"
  shows "\<not> isValid (validateNumber number)"
  using assms by (rule rejects_by_length)

theorem validateNumber_rejects_out_of_range_witness:
  "15 < length (cleanNumber ''1111111923001234567'')
   \<and> matchPakistani (cleanNumber ''1111111923001234567'') = Some ''300123456''
   \<and> \<not> isValid (validateNumber ''1111111923001234567'')"
proof -
  have h: "15 < length (cleanNumber ''1111111923001234567'')"
    by (simp add: validator_defs)
  have m: "matchPakistani (cleanNumber ''1111111923001234567'') = Some ''300123456''"
    by (simp add: validator_defs matchAt_def mobileAt_def)
  from h have "''1111111923001234567'' = [] \<or> length (cleanNumber ''1111111923001234567'') < 7
      \<or> 15 < length (cleanNumber ''1111111923001234567'')"
    by blast
  from validateNumber_rejects_out_of_range [OF this] h m show ?thesis by blast
qed

text \<open>
  C10 (as the specification states it) fails: \<open>0000123456789\<close> is accepted with the
  canonical form \<open>+00123456789\<close>, and normalizing that form gives \<open>+123456789\<close>.
\<close>

theorem validateNumber_idempotence_counterexample:
  "isValid (validateNumber ''0000123456789'')
   \<and> formattedNumber (validateNumber ''0000123456789'') = Some ''+00123456789''
   \<and> formattedNumber (validateNumber ''+00123456789'') \<noteq> Some ''+00123456789''"
  by (simp add: validator_defs)

text \<open>
  C10 (amended). When \<open>validateNumber\<close> accepts an input with canonical form \<open>c\<close>, and
  the digits of \<open>c\<close> neither begin with \<open>00\<close> nor are eleven digits beginning with
  \<open>03\<close>, then \<open>validateNumber\<close> accepts \<open>c\<close> with the same canonical form \<open>c\<close>.
\<close>

theorem validateNumber_idempotent_on_stable:
  assumes "isValid (validateNumber number)"
    and "formattedNumber (validateNumber number) = Some c"
    and "\<not> startsWith (drop 1 c) ''00''"
    and "\<not> (length c = 12 \<and> startsWith (drop 1 c) ''03'')"
  shows "isValid (validateNumber c) \<and> formattedNumber (validateNumber c) = Some c"
proof -
  have "intlRegex c" using assms(1,2) by (rule valid_canonical_shape)
  from canonical_fixed [OF this assms(3,4)] show ?thesis by simp
qed

theorem validateNumber_idempotent_on_stable_witness:
  "isValid (validateNumber ''03211234567'')
   \<and> formattedNumber (validateNumber ''03211234567'') = Some ''+923211234567''
   \<and> isValid (validateNumber ''+923211234567'')
   \<and> formattedNumber (validateNumber ''+923211234567'') = Some ''+923211234567''"
proof -
  have v: "isValid (validateNumber ''03211234567'')"
    by (simp add: validator_defs)
  have f: "formattedNumber (validateNumber ''03211234567'') = Some ''+923211234567''"
    by (simp add: validator_defs)
  have a: "\<not> startsWith (drop 1 ''+923211234567'') ''00''"
    by (simp add: startsWith_def)
  have b: "\<not> (length ''+923211234567'' = 12 \<and> startsWith (drop 1 ''+923211234567'') ''03'')"
    by simp
  from validateNumber_idempotent_on_stable [OF v f a b] v f show ?thesis by blast
qed

end
